theory Spec2Isabelle
  imports Complex_Main "HOL-Library.Word" "HOL-Library.Sublist" "HOL-Library.Log_Nat"
begin

section \<open>HabitFlow: the habit collection and its operations\<close>

text \<open>
  The repository holds two versions of the tracker script: \<^verbatim>\<open>script.js\<close> (the one the
  README documents) and a shorter variant (\<^verbatim>\<open>unnamed/part_000\<close>). Both keep one global
  array \<^verbatim>\<open>habits\<close>; the handlers mutate it and then persist, render and recompute the
  statistics. Each handler is embedded as a function from the array before the call to
  the array after it. What the handler reads from its environment is a parameter of the
  function: the text of the input field, the selected category, the clock reading of
  \<^verbatim>\<open>Date.now()\<close>, the text of \<^verbatim>\<open>new Date().toISOString()\<close> and the answer of
  \<^verbatim>\<open>confirm(...)\<close>.
\<close>

subsection \<open>Strings\<close>

text \<open>
  A JavaScript string is a sequence of UTF-16 code units and \<^verbatim>\<open>length\<close> counts them.
\<close>

type_synonym jsstring = "16 word list"

definition js :: "string \<Rightarrow> jsstring" where
  "js s = map (\<lambda>c. of_nat (of_char c)) s"

text \<open>
  \<^verbatim>\<open>String.prototype.trim\<close> strips ECMAScript white space and line terminators from both
  ends: TAB, LF, VT, FF, CR, SP, NBSP, U+1680, U+2000 to U+200A, U+2028, U+2029, U+202F,
  U+205F, U+3000 and U+FEFF.
\<close>

definition isWhiteSpace :: "16 word \<Rightarrow> bool" where
  "isWhiteSpace c \<longleftrightarrow>
     c = 0x9 \<or> c = 0xA \<or> c = 0xB \<or> c = 0xC \<or> c = 0xD \<or> c = 0x20 \<or> c = 0xA0 \<or>
     c = 0x1680 \<or> (0x2000 \<le> c \<and> c \<le> 0x200A) \<or> c = 0x2028 \<or> c = 0x2029 \<or>
     c = 0x202F \<or> c = 0x205F \<or> c = 0x3000 \<or> c = 0xFEFF"

definition trim :: "jsstring \<Rightarrow> jsstring" where
  "trim s = rev (dropWhile isWhiteSpace (rev (dropWhile isWhiteSpace s)))"

subsection \<open>The habit record\<close>

text \<open>
  The object literal of \<^verbatim>\<open>handleAddHabit\<close> (script.js, lines 95 to 103). \<^verbatim>\<open>id\<close> is the
  integer number of milliseconds \<^verbatim>\<open>Date.now()\<close> returns; \<^verbatim>\<open>completedAt\<close> is \<^verbatim>\<open>null\<close> or
  an ISO time stamp, and \<open>None\<close> stands for the absent value (\<^verbatim>\<open>null\<close>, or in the shorter
  variant the property that is never created). \<^verbatim>\<open>streak\<close> only ever counts up from 0 in
  steps of one, so it is a natural number (exact in a JavaScript number below \<open>2^53\<close>).
\<close>

record habit =
  id' :: int
  name :: jsstring
  category :: jsstring
  completed :: bool
  createdAt :: jsstring
  completedAt :: "jsstring option"
  streak :: nat

subsection \<open>Adding a habit\<close>

text \<open>
  The three \<^verbatim>\<open>showError\<close> exits of the add handler, in the order of the source:
  \<^verbatim>\<open>'Please enter a habit name!'\<close>, \<^verbatim>\<open>'Habit name must be at least 3 characters!'\<close> and
  \<^verbatim>\<open>'Habit name is too long (max 50 characters)!'\<close>.
\<close>

datatype validation_error = EmptyName | TooShort | TooLong

definition error_text :: "validation_error \<Rightarrow> string" where
  "error_text e = (case e of
       EmptyName \<Rightarrow> ''Please enter a habit name!''
     | TooShort \<Rightarrow> ''Habit name must be at least 3 characters!''
     | TooLong \<Rightarrow> ''Habit name is too long (max 50 characters)!'')"

text \<open>
  \<^verbatim>\<open>handleAddHabit\<close> of script.js. The result is the error shown (if any) and the array
  after the call; \<^verbatim>\<open>!name\<close> is true exactly for the empty string.
\<close>

definition handleAddHabit ::
  "int \<Rightarrow> jsstring \<Rightarrow> jsstring \<Rightarrow> jsstring \<Rightarrow> habit list \<Rightarrow> validation_error option \<times> habit list"
where
  "handleAddHabit now stamp input_value input_category habits =
     (let nm = trim input_value in
      if nm = [] then (Some EmptyName, habits)
      else if length nm < 3 then (Some TooShort, habits)
      else if length nm > 50 then (Some TooLong, habits)
      else (None, habits @
              [\<lparr>id' = now, name = nm, category = input_category, completed = False,
                createdAt = stamp, completedAt = None, streak = 0\<rparr>]))"

text \<open>
  \<^verbatim>\<open>addHabit\<close> of the shorter variant (part_000, lines 45 to 76): the same handler without
  the upper bound on the length, and the object literal has no \<^verbatim>\<open>completedAt\<close> property.
\<close>

definition addHabit ::
  "int \<Rightarrow> jsstring \<Rightarrow> jsstring \<Rightarrow> jsstring \<Rightarrow> habit list \<Rightarrow> validation_error option \<times> habit list"
where
  "addHabit now stamp input_value input_category habits =
     (let nm = trim input_value in
      if nm = [] then (Some EmptyName, habits)
      else if length nm < 3 then (Some TooShort, habits)
      else (None, habits @
              [\<lparr>id' = now, name = nm, category = input_category, completed = False,
                createdAt = stamp, completedAt = None, streak = 0\<rparr>]))"

subsection \<open>Toggling and deleting\<close>

text \<open>
  \<^verbatim>\<open>Array.prototype.findIndex\<close>: the index of the first element that satisfies the
  predicate, \<open>None\<close> for the source's \<open>-1\<close>. \<^verbatim>\<open>find\<close> returns the element at that index.
\<close>

fun findIndex :: "('a \<Rightarrow> bool) \<Rightarrow> 'a list \<Rightarrow> nat option" where
  "findIndex P [] = None"
| "findIndex P (x # xs) =
     (if P x then Some 0 else (case findIndex P xs of None \<Rightarrow> None | Some k \<Rightarrow> Some (Suc k)))"

text \<open>
  The body of \<^verbatim>\<open>toggleHabitComplete\<close> on the habit found (script.js, lines 216 to 223).
\<close>

definition toggled :: "jsstring \<Rightarrow> habit \<Rightarrow> habit" where
  "toggled stamp h =
     (let h1 = h\<lparr>completed := \<not> completed h\<rparr> in
      if completed h1 then h1\<lparr>completedAt := Some stamp, streak := streak h1 + 1\<rparr>
      else h1\<lparr>completedAt := None\<rparr>)"

definition toggleHabitComplete :: "jsstring \<Rightarrow> int \<Rightarrow> habit list \<Rightarrow> habit list" where
  "toggleHabitComplete stamp habitId habits =
     (case findIndex (\<lambda>h. id' h = habitId) habits of
        None \<Rightarrow> habits
      | Some k \<Rightarrow> habits[k := toggled stamp (habits ! k)])"

text \<open>
  \<^verbatim>\<open>toggleComplete\<close> of the shorter variant (part_000, lines 139 to 152): it flips the flag
  and counts the streak, and never writes \<^verbatim>\<open>completedAt\<close>.
\<close>

definition toggled0 :: "habit \<Rightarrow> habit" where
  "toggled0 h =
     (let h1 = h\<lparr>completed := \<not> completed h\<rparr> in
      if completed h1 then h1\<lparr>streak := streak h1 + 1\<rparr> else h1)"

definition toggleComplete :: "int \<Rightarrow> habit list \<Rightarrow> habit list" where
  "toggleComplete ident habits =
     (case findIndex (\<lambda>h. id' h = ident) habits of
        None \<Rightarrow> habits
      | Some k \<Rightarrow> habits[k := toggled0 (habits ! k)])"

text \<open>
  \<^verbatim>\<open>deleteHabit\<close> of script.js (lines 233 to 249): look the index up, ask the user, and
  \<^verbatim>\<open>splice(habitIndex, 1)\<close>. \<open>confirmed\<close> is the answer of \<^verbatim>\<open>confirm(...)\<close>.
\<close>

definition deleteHabit :: "bool \<Rightarrow> int \<Rightarrow> habit list \<Rightarrow> habit list" where
  "deleteHabit confirmed habitId habits =
     (case findIndex (\<lambda>h. id' h = habitId) habits of
        None \<Rightarrow> habits
      | Some k \<Rightarrow> if \<not> confirmed then habits else take k habits @ drop (Suc k) habits)"

text \<open>
  \<^verbatim>\<open>deleteHabit\<close> of the shorter variant (part_000, lines 155 to 166): the same prompt, and
  the array is replaced by \<^verbatim>\<open>habits.filter(h => h.id !== id)\<close>.
\<close>

definition deleteHabit0 :: "bool \<Rightarrow> int \<Rightarrow> habit list \<Rightarrow> habit list" where
  "deleteHabit0 confirmed ident habits =
     (case findIndex (\<lambda>h. id' h = ident) habits of
        None \<Rightarrow> habits
      | Some k \<Rightarrow> if \<not> confirmed then habits else filter (\<lambda>h. id' h \<noteq> ident) habits)"

subsection \<open>Reachable states\<close>

text \<open>
  The arrays script.js can hold after any sequence of add, toggle and delete calls that
  starts from the empty array of line 6, and the same for the shorter variant.
\<close>

inductive reachable :: "habit list \<Rightarrow> bool" where
  r_empty: "reachable []"
| r_add: "reachable hs \<Longrightarrow> reachable (snd (handleAddHabit now stamp v cat hs))"
| r_toggle: "reachable hs \<Longrightarrow> reachable (toggleHabitComplete stamp i hs)"
| r_delete: "reachable hs \<Longrightarrow> reachable (deleteHabit ok i hs)"

inductive reachable0 :: "habit list \<Rightarrow> bool" where
  r0_empty: "reachable0 []"
| r0_add: "reachable0 hs \<Longrightarrow> reachable0 (snd (addHabit now stamp v cat hs))"
| r0_toggle: "reachable0 hs \<Longrightarrow> reachable0 (toggleComplete i hs)"
| r0_delete: "reachable0 hs \<Longrightarrow> reachable0 (deleteHabit0 ok i hs)"

subsection \<open>Filtering\<close>

text \<open>
  \<^verbatim>\<open>getFilteredHabits\<close> (script.js, lines 134 to 141); the shorter variant has the same
  three branches inside \<^verbatim>\<open>renderHabits\<close>. \<^verbatim>\<open>currentFilter\<close> starts as \<^verbatim>\<open>'all'\<close> and is
  set from the \<^verbatim>\<open>data-filter\<close> attribute of the button clicked.
\<close>

definition getFilteredHabits :: "jsstring \<Rightarrow> habit list \<Rightarrow> habit list" where
  "getFilteredHabits currentFilter habits =
     (if currentFilter = js ''active'' then filter (\<lambda>h. \<not> completed h) habits
      else if currentFilter = js ''completed'' then filter (\<lambda>h. completed h) habits
      else habits)"

subsection \<open>Numbers\<close>

text \<open>
  \<^verbatim>\<open>completed / total\<close> and \<^verbatim>\<open>... * 100\<close> are operations on JavaScript numbers: the exact
  quotient or product, rounded to the nearest IEEE 754 binary64 value, ties to the even
  significand. A finite number is modelled by the rational it denotes. \<open>binade x\<close> is the
  exponent \<open>e\<close> with \<open>2^e \<le> x < 2^(e+1)\<close>, and the significand has 53 bits. Overflow and
  subnormal results do not occur for the operands of this program (array lengths, and
  their quotient times 100), and are not modelled.
\<close>

definition pow2 :: "int \<Rightarrow> rat" where
  "pow2 e = (if 0 \<le> e then 2 ^ nat e else 1 / 2 ^ nat (- e))"

definition binade :: "rat \<Rightarrow> int" where
  "binade x =
     (let (p, q) = quotient_of x;
          e0 = bitlen p - bitlen q
      in if pow2 e0 \<le> x then e0 else e0 - 1)"

definition roundTiesToEven :: "rat \<Rightarrow> int" where
  "roundTiesToEven m =
     (let f = \<lfloor>m\<rfloor>; r = m - of_int f
      in if r < 1 / 2 then f else if 1 / 2 < r then f + 1 else if even f then f else f + 1)"

definition binary64 :: "rat \<Rightarrow> rat" where
  "binary64 x =
     (if x = 0 then 0
      else let a = \<bar>x\<bar>; u = pow2 (binade a - 52)
           in sgn x * (of_int (roundTiesToEven (a / u)) * u))"

definition js_div :: "rat \<Rightarrow> rat \<Rightarrow> rat" where
  "js_div a b = binary64 (a / b)"

definition js_mul :: "rat \<Rightarrow> rat \<Rightarrow> rat" where
  "js_mul a b = binary64 (a * b)"

text \<open>
  \<^verbatim>\<open>Math.round\<close>: the integer closest to the argument, and of two equally close ones the
  one nearer to plus infinity.
\<close>

definition Math_round :: "rat \<Rightarrow> int" where
  "Math_round x = \<lfloor>x + 1 / 2\<rfloor>"

text \<open>
  The rounding rule the specification names: halves go away from zero.
\<close>

definition round_half_away_from_zero :: "rat \<Rightarrow> int" where
  "round_half_away_from_zero x = (if 0 \<le> x then \<lfloor>x + 1 / 2\<rfloor> else \<lceil>x - 1 / 2\<rceil>)"

subsection \<open>Statistics\<close>

text \<open>
  \<^verbatim>\<open>updateProgressBar\<close> (script.js, lines 265 to 269) and \<^verbatim>\<open>updateStats\<close> (lines 252 to
  262); the shorter variant computes the same four values in one function. The result is
  the four numbers written to the page. \<^verbatim>\<open>Math.max(...)\<close> of a non-empty list is its
  largest element; the source guards the empty list.
\<close>

definition updateProgressBar :: "nat \<Rightarrow> nat \<Rightarrow> int" where
  "updateProgressBar total_count completed_count =
     (if total_count > 0
      then Math_round (js_mul (js_div (of_nat completed_count) (of_nat total_count)) 100)
      else 0)"

record stats =
  total :: nat
  completedCount :: nat
  maxStreak :: nat
  percentage :: int

definition updateStats :: "habit list \<Rightarrow> stats" where
  "updateStats habits =
     (let total_count = length habits;
          completed_count = length (filter (\<lambda>h. completed h) habits);
          max_streak = (if length habits > 0 then Max (set (map streak habits)) else 0)
      in \<lparr>total = total_count, completedCount = completed_count, maxStreak = max_streak,
          percentage = updateProgressBar total_count completed_count\<rparr>)"

subsection \<open>Persistence\<close>

text \<open>
  What \<^verbatim>\<open>JSON.parse\<close> can return and \<^verbatim>\<open>JSON.stringify\<close> can take: the global \<^verbatim>\<open>habits\<close>
  holds such a value once it has been loaded. The numbers of the habit format are
  integers.
\<close>

datatype json =
    JNull
  | JBool bool
  | JNum int
  | JStr jsstring
  | JArr "json list"
  | JObj "(jsstring \<times> json) list"

text \<open>
  The array of habit objects as a value: the properties in the order of the object
  literal of \<^verbatim>\<open>handleAddHabit\<close>, an absent \<^verbatim>\<open>completedAt\<close> being \<^verbatim>\<open>null\<close>.
\<close>

definition habit_obj :: "habit \<Rightarrow> json" where
  "habit_obj h = JObj
     [(js ''id'', JNum (id' h)),
      (js ''name'', JStr (name h)),
      (js ''category'', JStr (category h)),
      (js ''completed'', JBool (completed h)),
      (js ''createdAt'', JStr (createdAt h)),
      (js ''completedAt'', (case completedAt h of None \<Rightarrow> JNull | Some s \<Rightarrow> JStr s)),
      (js ''streak'', JNum (int (streak h)))]"

definition habits_value :: "habit list \<Rightarrow> json" where
  "habits_value hs = JArr (map habit_obj hs)"

text \<open>
  \<^verbatim>\<open>loadHabitsFromStorage\<close> (script.js, lines 51 to 61; \<^verbatim>\<open>loadFromStorage\<close> of the shorter
  variant is the same without the log line). \<open>stored\<close> is what
  \<^verbatim>\<open>localStorage.getItem('habitflow_habits')\<close> returned, \<open>None\<close> for \<^verbatim>\<open>null\<close>; the empty
  string is falsy as \<^verbatim>\<open>null\<close> is. \<open>parse\<close> is the platform's \<^verbatim>\<open>JSON.parse\<close>, \<open>None\<close> when
  it throws. The function returns the value of \<^verbatim>\<open>habits\<close> after the call.
\<close>

definition loadHabitsFromStorage ::
  "(jsstring \<Rightarrow> json option) \<Rightarrow> jsstring option \<Rightarrow> json \<Rightarrow> json"
where
  "loadHabitsFromStorage parse stored habits =
     (case stored of
        None \<Rightarrow> habits
      | Some s \<Rightarrow>
          if s = [] then habits
          else (case parse s of Some v \<Rightarrow> v | None \<Rightarrow> JArr []))"

text \<open>
  \<^verbatim>\<open>init\<close> calls the loader on the module's initial \<^verbatim>\<open>let habits = []\<close>; it is the only
  caller.
\<close>

definition init :: "(jsstring \<Rightarrow> json option) \<Rightarrow> jsstring option \<Rightarrow> json" where
  "init parse stored = loadHabitsFromStorage parse stored (JArr [])"

text \<open>
  \<^verbatim>\<open>saveHabitsToStorage\<close> (script.js, lines 63 to 70). \<open>stringify\<close> is the platform's
  \<^verbatim>\<open>JSON.stringify\<close>; \<open>write_ok\<close> says whether \<^verbatim>\<open>localStorage.setItem\<close> succeeded (it
  throws when the quota is exceeded). The result is the stored item after the call and
  whether the toast \<^verbatim>\<open>'Failed to save data!'\<close> was shown.
\<close>

definition saveHabitsToStorage ::
  "(json \<Rightarrow> jsstring) \<Rightarrow> bool \<Rightarrow> json \<Rightarrow> jsstring option \<Rightarrow> jsstring option \<times> bool"
where
  "saveHabitsToStorage stringify write_ok habits stored =
     (if write_ok then (Some (stringify habits), False) else (stored, True))"

subsection \<open>The platform's JSON codec\<close>

text \<open>
  The loader and the saver above take the codec as a parameter. \<open>JSON_stringify\<close> and
  \<open>JSON_parse\<close> are the platform's codec, after ECMA-262, for the values of the habit
  format: \<^verbatim>\<open>JSON.stringify\<close> without indentation (\<^verbatim>\<open>QuoteJSONString\<close> with the short
  escapes, \<^verbatim>\<open>\u00xx\<close> for the other control characters and for lone surrogates, decimal
  digits for an integer), and the JSON grammar with its four white space characters.
  Number literals are the integer ones; a literal with a fraction or an exponent is
  outside this model (\<open>JSON_parse\<close> answers \<open>None\<close> there, the platform decodes it), and
  so are objects with repeated or integer-like keys, which the platform reorders, and
  integers of 22 digits or more, which the platform writes with an exponent. The parser
  descends on fuel, one more than the length of the text; that this is enough for the
  text of every array of habits is part of the round trip proved below.
\<close>

definition is_json_ws :: "16 word \<Rightarrow> bool" where
  "is_json_ws c \<longleftrightarrow> c = 0x20 \<or> c = 0x9 \<or> c = 0xA \<or> c = 0xD"

definition skip_ws :: "jsstring \<Rightarrow> jsstring" where
  "skip_ws s = dropWhile is_json_ws s"

definition is_digit :: "16 word \<Rightarrow> bool" where
  "is_digit c \<longleftrightarrow> 0x30 \<le> c \<and> c \<le> 0x39"

function digits_of :: "int \<Rightarrow> jsstring" where
  "digits_of n = (if n < 10 then [0x30 + word_of_int n]
                  else digits_of (n div 10) @ [0x30 + word_of_int (n mod 10)])"
  by pat_completeness auto
termination
  by (relation "measure nat") auto

declare digits_of.simps [simp del]

definition number_text :: "int \<Rightarrow> jsstring" where
  "number_text i = (if i < 0 then 0x2D # digits_of (- i) else digits_of i)"

definition hexdigit :: "16 word \<Rightarrow> 16 word" where
  "hexdigit n = (if n < 10 then 0x30 + n else 0x57 + n)"

definition unicode_escape :: "16 word \<Rightarrow> jsstring" where
  "unicode_escape c =
     [0x5C, 0x75, hexdigit (c div 0x1000), hexdigit (c div 0x100 mod 0x10),
      hexdigit (c div 0x10 mod 0x10), hexdigit (c mod 0x10)]"

definition is_lead :: "16 word \<Rightarrow> bool" where
  "is_lead c \<longleftrightarrow> 0xD800 \<le> c \<and> c \<le> 0xDBFF"

definition is_trail :: "16 word \<Rightarrow> bool" where
  "is_trail c \<longleftrightarrow> 0xDC00 \<le> c \<and> c \<le> 0xDFFF"

fun quote_chars :: "jsstring \<Rightarrow> jsstring" where
  "quote_chars [] = []"
| "quote_chars (c # cs) =
     (if c = 0x22 then [0x5C, 0x22] @ quote_chars cs
      else if c = 0x5C then [0x5C, 0x5C] @ quote_chars cs
      else if c = 0x8 then [0x5C, 0x62] @ quote_chars cs
      else if c = 0x9 then [0x5C, 0x74] @ quote_chars cs
      else if c = 0xA then [0x5C, 0x6E] @ quote_chars cs
      else if c = 0xC then [0x5C, 0x66] @ quote_chars cs
      else if c = 0xD then [0x5C, 0x72] @ quote_chars cs
      else if c < 0x20 then unicode_escape c @ quote_chars cs
      else if is_lead c then
        (case cs of
           [] \<Rightarrow> unicode_escape c
         | d # ds \<Rightarrow> if is_trail d then c # d # quote_chars ds
                     else unicode_escape c @ quote_chars cs)
      else if is_trail c then unicode_escape c @ quote_chars cs
      else c # quote_chars cs)"

definition quote :: "jsstring \<Rightarrow> jsstring" where
  "quote s = 0x22 # quote_chars s @ [0x22]"

fun comma_join :: "jsstring list \<Rightarrow> jsstring" where
  "comma_join [] = []"
| "comma_join [x] = x"
| "comma_join (x # y # r) = x @ 0x2C # comma_join (y # r)"

fun JSON_stringify :: "json \<Rightarrow> jsstring" where
  "JSON_stringify JNull = js ''null''"
| "JSON_stringify (JBool b) = (if b then js ''true'' else js ''false'')"
| "JSON_stringify (JNum i) = number_text i"
| "JSON_stringify (JStr s) = quote s"
| "JSON_stringify (JArr vs) = 0x5B # comma_join (map JSON_stringify vs) @ [0x5D]"
| "JSON_stringify (JObj kvs) =
     0x7B # comma_join (map (\<lambda>kv. quote (fst kv) @ 0x3A # JSON_stringify (snd kv)) kvs) @ [0x7D]"

definition hexval :: "16 word \<Rightarrow> 16 word option" where
  "hexval c =
     (if 0x30 \<le> c \<and> c \<le> 0x39 then Some (c - 0x30)
      else if 0x61 \<le> c \<and> c \<le> 0x66 then Some (c - 0x57)
      else if 0x41 \<le> c \<and> c \<le> 0x46 then Some (c - 0x37)
      else None)"

definition hex4 :: "16 word \<Rightarrow> 16 word \<Rightarrow> 16 word \<Rightarrow> 16 word \<Rightarrow> 16 word option" where
  "hex4 a b c d =
     (case (hexval a, hexval b, hexval c, hexval d) of
        (Some x, Some y, Some z, Some w) \<Rightarrow> Some (x * 0x1000 + y * 0x100 + z * 0x10 + w)
      | _ \<Rightarrow> None)"

definition unescape :: "16 word \<Rightarrow> 16 word option" where
  "unescape e =
     (if e = 0x22 then Some 0x22 else if e = 0x5C then Some 0x5C
      else if e = 0x2F then Some 0x2F else if e = 0x62 then Some 0x8
      else if e = 0x66 then Some 0xC else if e = 0x6E then Some 0xA
      else if e = 0x72 then Some 0xD else if e = 0x74 then Some 0x9
      else None)"

fun parse_chars :: "jsstring \<Rightarrow> (jsstring \<times> jsstring) option" where
  "parse_chars [] = None"
| "parse_chars (c # cs) =
     (if c = 0x22 then Some ([], cs)
      else if c = 0x5C then
        (case cs of
           [] \<Rightarrow> None
         | e # es \<Rightarrow>
             if e = 0x75 then
               (case es of
                  a # b # c' # d # rest \<Rightarrow>
                    (case hex4 a b c' d of
                       None \<Rightarrow> None
                     | Some u \<Rightarrow>
                         (case parse_chars rest of
                            None \<Rightarrow> None
                          | Some (str, r) \<Rightarrow> Some (u # str, r)))
                | _ \<Rightarrow> None)
             else
               (case unescape e of
                  None \<Rightarrow> None
                | Some u \<Rightarrow>
                    (case parse_chars es of
                       None \<Rightarrow> None
                     | Some (str, r) \<Rightarrow> Some (u # str, r))))
      else if c < 0x20 then None
      else (case parse_chars cs of
              None \<Rightarrow> None
            | Some (str, r) \<Rightarrow> Some (c # str, r)))"

fun digits_value :: "int \<Rightarrow> jsstring \<Rightarrow> int" where
  "digits_value acc [] = acc"
| "digits_value acc (c # cs) = digits_value (acc * 10 + (uint c - 48)) cs"

definition parse_nat :: "jsstring \<Rightarrow> (int \<times> jsstring) option" where
  "parse_nat s =
     (let ds = takeWhile is_digit s; rest = dropWhile is_digit s
      in if ds = [] then None
         else if hd ds = 0x30 \<and> length ds > 1 then None
         else if rest \<noteq> [] \<and> (hd rest = 0x2E \<or> hd rest = 0x65 \<or> hd rest = 0x45) then None
         else Some (digits_value 0 ds, rest))"

definition parse_number :: "jsstring \<Rightarrow> (json \<times> jsstring) option" where
  "parse_number s =
     (case s of
        [] \<Rightarrow> None
      | c # cs \<Rightarrow>
          if c = 0x2D then
            (case parse_nat cs of None \<Rightarrow> None | Some (n, rest) \<Rightarrow> Some (JNum (- n), rest))
          else
            (case parse_nat s of None \<Rightarrow> None | Some (n, rest) \<Rightarrow> Some (JNum n, rest)))"

definition parse_literal :: "string \<Rightarrow> json \<Rightarrow> jsstring \<Rightarrow> (json \<times> jsstring) option" where
  "parse_literal w v s =
     (if take (length w) s = js w then Some (v, drop (length w) s) else None)"

fun parse_value :: "nat \<Rightarrow> jsstring \<Rightarrow> (json \<times> jsstring) option"
  and parse_elements :: "nat \<Rightarrow> jsstring \<Rightarrow> (json list \<times> jsstring) option"
  and parse_members :: "nat \<Rightarrow> jsstring \<Rightarrow> ((jsstring \<times> json) list \<times> jsstring) option"
where
  "parse_value 0 s = None"
| "parse_value (Suc n) s =
     (case s of
        [] \<Rightarrow> None
      | c # cs \<Rightarrow>
          if c = 0x6E then parse_literal ''null'' JNull s
          else if c = 0x74 then parse_literal ''true'' (JBool True) s
          else if c = 0x66 then parse_literal ''false'' (JBool False) s
          else if c = 0x22 then
            (case parse_chars cs of None \<Rightarrow> None | Some (str, rest) \<Rightarrow> Some (JStr str, rest))
          else if c = 0x5B then
            (case skip_ws cs of
               [] \<Rightarrow> None
             | d # ds \<Rightarrow>
                 if d = 0x5D then Some (JArr [], ds)
                 else (case parse_elements n (d # ds) of
                         None \<Rightarrow> None
                       | Some (vs, rest) \<Rightarrow> Some (JArr vs, rest)))
          else if c = 0x7B then
            (case skip_ws cs of
               [] \<Rightarrow> None
             | d # ds \<Rightarrow>
                 if d = 0x7D then Some (JObj [], ds)
                 else (case parse_members n (d # ds) of
                         None \<Rightarrow> None
                       | Some (kvs, rest) \<Rightarrow> Some (JObj kvs, rest)))
          else parse_number s)"
| "parse_elements 0 s = None"
| "parse_elements (Suc n) s =
     (case parse_value n s of
        None \<Rightarrow> None
      | Some (v, r) \<Rightarrow>
          (case skip_ws r of
             [] \<Rightarrow> None
           | d # ds \<Rightarrow>
               if d = 0x5D then Some ([v], ds)
               else if d = 0x2C then
                 (case parse_elements n (skip_ws ds) of
                    None \<Rightarrow> None
                  | Some (vs, rest) \<Rightarrow> Some (v # vs, rest))
               else None))"
| "parse_members 0 s = None"
| "parse_members (Suc n) s =
     (case s of
        [] \<Rightarrow> None
      | q # qs \<Rightarrow>
          if q \<noteq> 0x22 then None
          else
            (case parse_chars qs of
               None \<Rightarrow> None
             | Some (k, r0) \<Rightarrow>
                 (case skip_ws r0 of
                    [] \<Rightarrow> None
                  | col # r1 \<Rightarrow>
                      if col \<noteq> 0x3A then None
                      else
                        (case parse_value n (skip_ws r1) of
                           None \<Rightarrow> None
                         | Some (v, r) \<Rightarrow>
                             (case skip_ws r of
                                [] \<Rightarrow> None
                              | d # ds \<Rightarrow>
                                  if d = 0x7D then Some ([(k, v)], ds)
                                  else if d = 0x2C then
                                    (case parse_members n (skip_ws ds) of
                                       None \<Rightarrow> None
                                     | Some (kvs, rest) \<Rightarrow> Some ((k, v) # kvs, rest))
                                  else None)))))"

definition JSON_parse :: "jsstring \<Rightarrow> json option" where
  "JSON_parse s =
     (case parse_value (Suc (length s)) (skip_ws s) of
        None \<Rightarrow> None
      | Some (v, rest) \<Rightarrow> if skip_ws rest = [] then Some v else None)"

subsection \<open>Notions for the round trip of the codec\<close>

text \<open>
  What may follow a number in the text of an array or object; the values without
  components; the text of one member of an object; and the objects of \<open>k\<close> members whose
  values have no components, which is the shape of a habit.
\<close>

definition number_ends :: "jsstring \<Rightarrow> bool" where
  "number_ends rest \<longleftrightarrow>
     (case rest of [] \<Rightarrow> True | c # cs \<Rightarrow> c = 0x2C \<or> c = 0x5D \<or> c = 0x7D)"

definition scalar :: "json \<Rightarrow> bool" where
  "scalar v = (case v of JArr _ \<Rightarrow> False | JObj _ \<Rightarrow> False | _ \<Rightarrow> True)"

definition member_text :: "jsstring \<times> json \<Rightarrow> jsstring" where
  "member_text kv = quote (fst kv) @ 0x3A # JSON_stringify (snd kv)"

definition flat_object :: "nat \<Rightarrow> json \<Rightarrow> bool" where
  "flat_object k v =
     (case v of
        JObj kvs \<Rightarrow> kvs \<noteq> [] \<and> length kvs = k \<and> list_all (\<lambda>kv. scalar (snd kv)) kvs
      | _ \<Rightarrow> False)"

subsection \<open>Sample data\<close>

definition h_water :: habit where
  "h_water = \<lparr>id' = 1700000000000, name = js ''Drink Water'', category = js ''health'',
     completed = False, createdAt = js ''2023-11-14T22:13:20.000Z'', completedAt = None,
     streak = 0\<rparr>"

definition sample_habit :: "nat \<Rightarrow> habit" where
  "sample_habit k = \<lparr>id' = 1700000000000 + int k, name = js ''Stretch'',
     category = js ''health'', completed = (k < 23),
     createdAt = js ''2023-11-14T22:13:20.000Z'',
     completedAt = (if k < 23 then Some (js ''2023-11-15T07:00:00.000Z'') else None),
     streak = (if k < 23 then 1 else 0)\<rparr>"

definition forty_habits :: "habit list" where
  "forty_habits = map sample_habit [0..<40]"

subsection \<open>The invariant of the completion time stamp\<close>

definition completion_inv :: "habit list \<Rightarrow> bool" where
  "completion_inv hs \<longleftrightarrow> (\<forall>h \<in> set hs. completed h \<longleftrightarrow> completedAt h \<noteq> None)"

section \<open>Properties\<close>

subsection \<open>Facts about \<open>findIndex\<close>\<close>

lemma findIndex_None: "findIndex P xs = None \<longleftrightarrow> (\<forall>x \<in> set xs. \<not> P x)"
  by (induction xs) (auto split: option.splits)

lemma findIndex_present: "(\<exists>k. findIndex P xs = Some k) \<longleftrightarrow> (\<exists>x \<in> set xs. P x)"
  using findIndex_None [of P xs] by (cases "findIndex P xs") auto

lemma findIndex_Some:
  "findIndex P xs = Some k \<Longrightarrow> k < length xs \<and> P (xs ! k) \<and> (\<forall>j < k. \<not> P (xs ! j))"
proof (induction xs arbitrary: k)
  case Nil
  then show ?case by simp
next
  case (Cons x xs)
  show ?case
  proof (cases "P x")
    case True
    with Cons.prems show ?thesis by simp
  next
    case False
    with Cons.prems obtain k' where k': "findIndex P xs = Some k'" "k = Suc k'"
      by (auto split: option.splits)
    from Cons.IH [OF k'(1)] False k'(2) show ?thesis
      by (auto simp: nth_Cons split: nat.splits)
  qed
qed

subsection \<open>The invariant of the completion time stamp\<close>

lemma toggled_inv: "completed (toggled stamp h) \<longleftrightarrow> completedAt (toggled stamp h) \<noteq> None"
  by (simp add: toggled_def Let_def)

lemma toggled0_completedAt: "completedAt (toggled0 h) = completedAt h"
  by (simp add: toggled0_def Let_def)

lemma set_deleteHabit: "set (deleteHabit ok i hs) \<subseteq> set hs"
proof -
  have "set (take k hs @ drop (Suc k) hs) \<subseteq> set hs" for k
    using set_take_subset [of k hs] set_drop_subset [of "Suc k" hs] by auto
  then show ?thesis
    by (auto simp: deleteHabit_def split: option.splits)
qed

lemma set_deleteHabit0: "set (deleteHabit0 ok i hs) \<subseteq> set hs"
  by (auto simp: deleteHabit0_def split: option.splits)

lemma inv_add: "completion_inv hs \<Longrightarrow> completion_inv (snd (handleAddHabit now stamp v cat hs))"
  by (simp add: completion_inv_def handleAddHabit_def Let_def)

lemma inv_toggle: "completion_inv hs \<Longrightarrow> completion_inv (toggleHabitComplete stamp i hs)"
proof (cases "findIndex (\<lambda>h. id' h = i) hs")
  case None
  assume "completion_inv hs"
  with None show ?thesis by (simp add: toggleHabitComplete_def)
next
  case (Some k)
  assume inv: "completion_inv hs"
  have "set (hs[k := toggled stamp (hs ! k)]) \<subseteq> insert (toggled stamp (hs ! k)) (set hs)"
    by (rule set_update_subset_insert)
  with inv toggled_inv [of stamp "hs ! k"] Some show ?thesis
    unfolding completion_inv_def toggleHabitComplete_def by auto
qed

lemma inv_delete: "completion_inv hs \<Longrightarrow> completion_inv (deleteHabit ok i hs)"
  using set_deleteHabit [of ok i hs] unfolding completion_inv_def by blast

lemma reachable_inv: "reachable hs \<Longrightarrow> completion_inv hs"
  by (induction rule: reachable.induct)
     (simp_all add: completion_inv_def [of "[]"] inv_add inv_toggle inv_delete)

lemma reachable0_no_completedAt: "reachable0 hs \<Longrightarrow> \<forall>h \<in> set hs. completedAt h = None"
proof (induction rule: reachable0.induct)
  case r0_empty
  show ?case by simp
next
  case (r0_add hs now stamp v cat)
  then show ?case by (simp add: addHabit_def Let_def)
next
  case (r0_toggle hs i)
  show ?case
  proof (cases "findIndex (\<lambda>h. id' h = i) hs")
    case None
    with r0_toggle show ?thesis by (simp add: toggleComplete_def)
  next
    case (Some k)
    have "set (hs[k := toggled0 (hs ! k)]) \<subseteq> insert (toggled0 (hs ! k)) (set hs)"
      by (rule set_update_subset_insert)
    moreover from findIndex_Some [OF Some] have "hs ! k \<in> set hs" by simp
    ultimately show ?thesis
      using r0_toggle.IH Some toggled0_completedAt [of "hs ! k"]
      unfolding toggleComplete_def by auto
  qed
next
  case (r0_delete hs ok i)
  then show ?case using set_deleteHabit0 [of ok i hs] by blast
qed

lemma add_water:
  "snd (handleAddHabit 1700000000000 (js ''2023-11-14T22:13:20.000Z'') (js '' Drink Water'')
          (js ''health'') []) = [h_water]"
  by code_simp

lemma add0_water:
  "snd (addHabit 1700000000000 (js ''2023-11-14T22:13:20.000Z'') (js '' Drink Water'')
          (js ''health'') []) = [h_water]"
  by code_simp

lemma reachable_water: "reachable [h_water]"
  using r_add [OF r_empty, of 1700000000000 "js ''2023-11-14T22:13:20.000Z''"
      "js '' Drink Water''" "js ''health''"]
  by (simp only: add_water)

lemma reachable0_water: "reachable0 [h_water]"
  using r0_add [OF r0_empty, of 1700000000000 "js ''2023-11-14T22:13:20.000Z''"
      "js '' Drink Water''" "js ''health''"]
  by (simp only: add0_water)

text \<open>
  C1 (as amended). In script.js every array reachable from the empty one by
  \<^verbatim>\<open>handleAddHabit\<close>, \<^verbatim>\<open>toggleHabitComplete\<close> and \<^verbatim>\<open>deleteHabit\<close> satisfies, for each of its
  habits, \<open>completed\<close> if and only if \<open>completedAt\<close> is present, and each of the three
  operations preserves this. The shorter variant never writes \<open>completedAt\<close>: in every
  array it can reach, \<open>completedAt\<close> is absent for every habit, completed or not.
\<close>

theorem completed_iff_completedAt:
  "(reachable hs \<longrightarrow> completion_inv hs) \<and>
   (completion_inv hs \<longrightarrow>
      completion_inv (snd (handleAddHabit now stamp v cat hs)) \<and>
      completion_inv (toggleHabitComplete stamp' i hs) \<and>
      completion_inv (deleteHabit ok j hs)) \<and>
   (reachable0 hs \<longrightarrow> (\<forall>h \<in> set hs. completedAt h = None))"
  using reachable_inv inv_add inv_toggle inv_delete reachable0_no_completedAt by blast

theorem completed_iff_completedAt_witness:
  "reachable [h_water] \<and> completion_inv [h_water] \<and> reachable0 [h_water] \<and>
   completion_inv (snd (handleAddHabit 1700000000001 (js ''2023-11-14T22:13:20.001Z'')
                          (js ''Read a book'') (js ''learning'') [h_water])) \<and>
   completion_inv (toggleHabitComplete (js ''2023-11-15T07:00:00.000Z'') 1700000000000 [h_water]) \<and>
   completion_inv (deleteHabit True 1700000000000 [h_water]) \<and>
   completedAt h_water = None"
  using completed_iff_completedAt [of "[h_water]" 1700000000001 "js ''2023-11-14T22:13:20.001Z''"
      "js ''Read a book''" "js ''learning''" "js ''2023-11-15T07:00:00.000Z''" 1700000000000
      True 1700000000000]
    reachable_water reachable0_water
  by simp

text \<open>
  In the shorter variant, adding a habit and marking it complete gives a habit with
  \<open>completed = True\<close> and no \<open>completedAt\<close>.
\<close>

theorem completed_without_completedAt:
  "toggleComplete 1700000000000
     (snd (addHabit 1700000000000 (js ''2023-11-14T22:13:20.000Z'') (js '' Drink Water'')
             (js ''health'') []))
   = [\<lparr>id' = 1700000000000, name = js ''Drink Water'', category = js ''health'',
        completed = True, createdAt = js ''2023-11-14T22:13:20.000Z'', completedAt = None,
        streak = 1\<rparr>]"
  by code_simp

subsection \<open>Identifiers\<close>

text \<open>
  C2 (the code at the failing input). Two habits added at the same reading of
  \<^verbatim>\<open>Date.now()\<close> get the same \<open>id\<close>: the identifiers of the resulting array are not
  pairwise distinct.
\<close>

theorem same_clock_same_id:
  "map id' (snd (handleAddHabit 1700000000000 (js ''2023-11-14T22:13:20.000Z'')
                  (js ''Read a book'') (js ''learning'')
                  (snd (handleAddHabit 1700000000000 (js ''2023-11-14T22:13:20.000Z'')
                          (js '' Drink Water'') (js ''health'') []))))
   = [1700000000000, 1700000000000] \<and>
   \<not> distinct (map id' (snd (handleAddHabit 1700000000000 (js ''2023-11-14T22:13:20.000Z'')
                  (js ''Read a book'') (js ''learning'')
                  (snd (handleAddHabit 1700000000000 (js ''2023-11-14T22:13:20.000Z'')
                          (js '' Drink Water'') (js ''health'') [])))))"
proof -
  have "map id' (snd (handleAddHabit 1700000000000 (js ''2023-11-14T22:13:20.000Z'')
                  (js ''Read a book'') (js ''learning'')
                  (snd (handleAddHabit 1700000000000 (js ''2023-11-14T22:13:20.000Z'')
                          (js '' Drink Water'') (js ''health'') []))))
   = [1700000000000, 1700000000000]"
    by code_simp
  then show ?thesis by simp
qed

lemma fresh_clock_keeps_ids_distinct:
  "distinct (map id' hs) \<Longrightarrow> now \<notin> id' ` set hs \<Longrightarrow>
     distinct (map id' (snd (handleAddHabit now stamp v cat hs)))"
  by (simp add: handleAddHabit_def Let_def)

subsection \<open>The upper bound on the name\<close>

lemma handleAddHabit_rejects_long_names:
  "50 < length (trim v) \<Longrightarrow> handleAddHabit now stamp v cat hs = (Some TooLong, hs)"
  by (auto simp: handleAddHabit_def Let_def)

text \<open>
  C3 (the code at the failing input). \<^verbatim>\<open>handleAddHabit\<close> of script.js rejects every name
  longer than 50 (the lemma above), but \<^verbatim>\<open>addHabit\<close> of the shorter variant accepts a
  name of 51 code units and appends the habit.
\<close>

theorem addHabit_accepts_long_name:
  "length (trim (replicate 51 0x61)) = 51 \<and>
   addHabit 1700000000000 (js ''2023-11-14T22:13:20.000Z'') (replicate 51 0x61) (js ''health'') []
   = (None, [\<lparr>id' = 1700000000000, name = replicate 51 0x61, category = js ''health'',
               completed = False, createdAt = js ''2023-11-14T22:13:20.000Z'',
               completedAt = None, streak = 0\<rparr>])"
  by code_simp

subsection \<open>Toggling twice\<close>

lemma findIndex_update:
  "findIndex P xs = Some k \<Longrightarrow> P y \<Longrightarrow> findIndex P (xs[k := y]) = Some k"
proof (induction xs arbitrary: k)
  case Nil
  then show ?case by simp
next
  case (Cons x xs)
  show ?case
  proof (cases "P x")
    case True
    with Cons.prems show ?thesis by simp
  next
    case False
    with Cons.prems obtain k' where k': "findIndex P xs = Some k'" "k = Suc k'"
      by (auto split: option.splits)
    from Cons.IH [OF k'(1) Cons.prems(2)] False k'(2) show ?thesis by simp
  qed
qed

lemma findIndex_takeWhile:
  "findIndex P xs = Some k \<Longrightarrow>
     take k xs = takeWhile (\<lambda>x. \<not> P x) xs \<and> drop k xs = dropWhile (\<lambda>x. \<not> P x) xs"
proof (induction xs arbitrary: k)
  case Nil
  then show ?case by simp
next
  case (Cons x xs)
  show ?case
  proof (cases "P x")
    case True
    with Cons.prems show ?thesis by simp
  next
    case False
    with Cons.prems obtain k' where k': "findIndex P xs = Some k'" "k = Suc k'"
      by (auto split: option.splits)
    from Cons.IH [OF k'(1)] False k'(2) show ?thesis by simp
  qed
qed

lemma toggled_id: "id' (toggled stamp h) = id' h"
  by (simp add: toggled_def Let_def)

lemma toggled0_id: "id' (toggled0 h) = id' h"
  by (simp add: toggled0_def Let_def)

lemma toggled_twice:
  "toggled s2 (toggled s1 h) =
     h\<lparr>completedAt := (if completed h then Some s2 else None), streak := streak h + 1\<rparr>"
  by (cases "completed h") (simp_all add: toggled_def Let_def)

lemma toggled0_twice: "toggled0 (toggled0 h) = h\<lparr>streak := streak h + 1\<rparr>"
  by (cases "completed h") (simp_all add: toggled0_def Let_def)

text \<open>
  C4 (as amended). For an id present in the array, with \<open>k\<close> the index of the first
  habit that has it, toggling twice changes that habit and no other: its \<open>completed\<close> flag
  is the original one and its \<open>streak\<close> is one greater. In script.js its \<open>completedAt\<close> is
  absent afterwards if the habit started incomplete, and is the time of the second toggle
  if it started completed; in the shorter variant \<open>completedAt\<close> is left as it was.
\<close>

theorem toggle_twice:
  assumes "findIndex (\<lambda>h. id' h = i) hs = Some k"
  shows "toggleHabitComplete s2 i (toggleHabitComplete s1 i hs) =
           hs[k := (hs ! k)\<lparr>completedAt := (if completed (hs ! k) then Some s2 else None),
                             streak := streak (hs ! k) + 1\<rparr>]
         \<and> toggleComplete i (toggleComplete i hs) = hs[k := (hs ! k)\<lparr>streak := streak (hs ! k) + 1\<rparr>]"
proof -
  from findIndex_Some [OF assms] have k: "k < length hs" and idk: "id' (hs ! k) = i"
    by simp_all
  have first: "toggleHabitComplete s1 i hs = hs[k := toggled s1 (hs ! k)]"
    using assms by (simp add: toggleHabitComplete_def)
  have again: "findIndex (\<lambda>h. id' h = i) (hs[k := toggled s1 (hs ! k)]) = Some k"
    using assms idk by (intro findIndex_update) (simp_all add: toggled_id)
  have "toggleHabitComplete s2 i (hs[k := toggled s1 (hs ! k)]) =
          (hs[k := toggled s1 (hs ! k)])[k := toggled s2 (hs[k := toggled s1 (hs ! k)] ! k)]"
    using again by (simp add: toggleHabitComplete_def)
  with k have A: "toggleHabitComplete s2 i (toggleHabitComplete s1 i hs) =
           hs[k := toggled s2 (toggled s1 (hs ! k))]"
    by (simp add: first)
  have first0: "toggleComplete i hs = hs[k := toggled0 (hs ! k)]"
    using assms by (simp add: toggleComplete_def)
  have again0: "findIndex (\<lambda>h. id' h = i) (hs[k := toggled0 (hs ! k)]) = Some k"
    using assms idk by (intro findIndex_update) (simp_all add: toggled0_id)
  have "toggleComplete i (hs[k := toggled0 (hs ! k)]) =
          (hs[k := toggled0 (hs ! k)])[k := toggled0 (hs[k := toggled0 (hs ! k)] ! k)]"
    using again0 by (simp add: toggleComplete_def)
  with k have B: "toggleComplete i (toggleComplete i hs) = hs[k := toggled0 (toggled0 (hs ! k))]"
    by (simp add: first0)
  show ?thesis
    by (simp only: A B toggled_twice toggled0_twice)
qed

theorem toggle_twice_witness:
  "findIndex (\<lambda>h. id' h = 1700000000000) [h_water] = Some 0 \<and>
   toggleHabitComplete (js ''t2'') 1700000000000
     (toggleHabitComplete (js ''t1'') 1700000000000 [h_water]) =
     [h_water\<lparr>completedAt := None, streak := 1\<rparr>] \<and>
   toggleComplete 1700000000000 (toggleComplete 1700000000000 [h_water]) =
     [h_water\<lparr>streak := 1\<rparr>]"
proof -
  have f: "findIndex (\<lambda>h. id' h = 1700000000000) [h_water] = Some 0"
    by (simp add: h_water_def)
  from toggle_twice [OF f, of "js ''t2''" "js ''t1''"] f show ?thesis
    by (simp add: h_water_def)
qed

text \<open>
  A habit that starts completed has a \<open>completedAt\<close> after two toggles.
\<close>

theorem toggle_twice_from_completed:
  "toggleHabitComplete (js ''2023-11-15T09:00:00.000Z'') 1700000000000
     (toggleHabitComplete (js ''2023-11-15T08:00:00.000Z'') 1700000000000
        [\<lparr>id' = 1700000000000, name = js ''Drink Water'', category = js ''health'',
           completed = True, createdAt = js ''2023-11-14T22:13:20.000Z'',
           completedAt = Some (js ''2023-11-15T07:00:00.000Z''), streak = 1\<rparr>])
   = [\<lparr>id' = 1700000000000, name = js ''Drink Water'', category = js ''health'',
        completed = True, createdAt = js ''2023-11-14T22:13:20.000Z'',
        completedAt = Some (js ''2023-11-15T09:00:00.000Z''), streak = 2\<rparr>]"
  by code_simp

subsection \<open>Deleting\<close>

text \<open>
  C7 (as amended). \<^verbatim>\<open>deleteHabit\<close> removes a habit only if the user confirms the prompt
  the operation itself raises: then script.js removes the first habit with the id and the
  shorter variant every habit with the id, and an absent id leaves the array as it is. If
  the user declines, the array is unchanged. The result depends on the array, the id and
  the answer.
\<close>

theorem deleteHabit_asks_first:
  "deleteHabit ok i hs =
     (if ok then takeWhile (\<lambda>h. id' h \<noteq> i) hs @ drop 1 (dropWhile (\<lambda>h. id' h \<noteq> i) hs)
      else hs)
   \<and> deleteHabit0 ok i hs = (if ok then filter (\<lambda>h. id' h \<noteq> i) hs else hs)"
proof (cases "findIndex (\<lambda>h. id' h = i) hs")
  case None
  then have absent: "\<forall>h \<in> set hs. id' h \<noteq> i" by (simp add: findIndex_None)
  have f: "filter (\<lambda>h. id' h \<noteq> i) hs = hs" using absent by simp
  have tw: "takeWhile (\<lambda>h. id' h \<noteq> i) hs = hs" using absent by simp
  have dw: "dropWhile (\<lambda>h. id' h \<noteq> i) hs = []" using absent by simp
  show ?thesis by (simp add: deleteHabit_def deleteHabit0_def None f tw dw)
next
  case (Some k)
  from findIndex_takeWhile [OF Some]
  have tk: "take k hs = takeWhile (\<lambda>h. id' h \<noteq> i) hs"
    and dk: "drop k hs = dropWhile (\<lambda>h. id' h \<noteq> i) hs"
    by simp_all
  have "drop (Suc k) hs = drop 1 (drop k hs)" by simp
  then have d1: "drop (Suc k) hs = drop 1 (dropWhile (\<lambda>h. id' h \<noteq> i) hs)"
    by (simp only: dk)
  show ?thesis by (simp add: deleteHabit_def deleteHabit0_def Some tk d1)
qed

lemma deleteHabit_absent:
  "\<forall>h \<in> set hs. id' h \<noteq> i \<Longrightarrow> deleteHabit ok i hs = hs \<and> deleteHabit0 ok i hs = hs"
  using findIndex_None [of "\<lambda>h. id' h = i" hs]
  by (simp add: deleteHabit_def deleteHabit0_def)

text \<open>
  The same array and id, two answers, two results.
\<close>

theorem delete_depends_on_answer:
  "deleteHabit False 1700000000000 [h_water] = [h_water] \<and>
   deleteHabit True 1700000000000 [h_water] = [] \<and>
   deleteHabit0 False 1700000000000 [h_water] = [h_water] \<and>
   deleteHabit0 True 1700000000000 [h_water] = []"
  by (simp add: deleteHabit_def deleteHabit0_def h_water_def)

subsection \<open>Filtering\<close>

text \<open>
  C8. The active and the completed filter each return a subsequence of the array (the
  habits with \<open>completed\<close> false, respectively true, in their order); as sets the two
  results cover the array and are disjoint; the filter \<^verbatim>\<open>'all'\<close> returns the array itself.
\<close>

theorem filters_partition:
  "subseq (getFilteredHabits (js ''active'') hs) hs \<and>
   subseq (getFilteredHabits (js ''completed'') hs) hs \<and>
   getFilteredHabits (js ''active'') hs = filter (\<lambda>h. completed h = False) hs \<and>
   getFilteredHabits (js ''completed'') hs = filter (\<lambda>h. completed h = True) hs \<and>
   set (getFilteredHabits (js ''active'') hs) \<union> set (getFilteredHabits (js ''completed'') hs) = set hs \<and>
   set (getFilteredHabits (js ''active'') hs) \<inter> set (getFilteredHabits (js ''completed'') hs) = {} \<and>
   getFilteredHabits (js ''all'') hs = hs"
proof -
  have ne: "js ''completed'' \<noteq> js ''active''" "js ''all'' \<noteq> js ''active''"
    "js ''all'' \<noteq> js ''completed''"
    by (simp_all add: js_def)
  show ?thesis
    by (auto simp: getFilteredHabits_def ne)
qed

subsection \<open>Statistics\<close>

text \<open>
  The rounding of the model is rounding to nearest with 53 significant bits: for \<open>x\<close> in
  the binade \<open>2^e \<le> \<bar>x\<bar> < 2^(e+1)\<close> the result is a multiple of \<open>2^(e-52)\<close> and at most
  half of that away from \<open>x\<close>.
\<close>

lemma pow2_powi: "pow2 e = 2 powi e"
  by (simp add: pow2_def power_int_def inverse_eq_divide power_one_over)

lemma roundTiesToEven_near: "\<bar>of_int (roundTiesToEven m) - m\<bar> \<le> 1 / 2"
proof -
  define r where "r = m - of_int \<lfloor>m\<rfloor>"
  have r: "0 \<le> r" "r < 1" unfolding r_def by linarith+
  have m: "m = of_int \<lfloor>m\<rfloor> + r" by (simp add: r_def)
  have rt: "roundTiesToEven m =
      (if r < 1 / 2 then \<lfloor>m\<rfloor> else if 1 / 2 < r then \<lfloor>m\<rfloor> + 1
       else if even \<lfloor>m\<rfloor> then \<lfloor>m\<rfloor> else \<lfloor>m\<rfloor> + 1)"
    by (simp only: roundTiesToEven_def Let_def r_def)
  have "roundTiesToEven m = \<lfloor>m\<rfloor> \<and> r \<le> 1 / 2 \<or> roundTiesToEven m = \<lfloor>m\<rfloor> + 1 \<and> 1 / 2 \<le> r"
  proof (cases "r < 1 / 2")
    case True
    then show ?thesis by (simp add: rt)
  next
    case nl: False
    show ?thesis
    proof (cases "1 / 2 < r")
      case True
      with nl show ?thesis by (simp add: rt)
    next
      case False
      with nl have "r = 1 / 2" by simp
      then show ?thesis by (simp add: rt)
    qed
  qed
  then show ?thesis
  proof
    assume "roundTiesToEven m = \<lfloor>m\<rfloor> \<and> r \<le> 1 / 2"
    then have a: "roundTiesToEven m = \<lfloor>m\<rfloor>" and b: "r \<le> 1 / 2" by simp_all
    have "of_int (roundTiesToEven m) - m = - r" unfolding a by (simp add: r_def)
    with r b show ?thesis by simp
  next
    assume "roundTiesToEven m = \<lfloor>m\<rfloor> + 1 \<and> 1 / 2 \<le> r"
    then have a: "roundTiesToEven m = \<lfloor>m\<rfloor> + 1" and b: "1 / 2 \<le> r" by simp_all
    have "of_int (roundTiesToEven m) - m = 1 - r" unfolding a by (simp add: r_def)
    with r b show ?thesis by simp
  qed
qed

lemma binade_bounds:
  assumes "0 < x"
  shows "pow2 (binade x) \<le> x \<and> x < pow2 (binade x + 1)"
proof -
  obtain p q where pq: "quotient_of x = (p, q)" by (cases "quotient_of x")
  then have q: "0 < q" and x: "x = of_int p / of_int q"
    using quotient_of_denom_pos [of x p q] quotient_of_div [of x p q] by simp_all
  from assms x q have p: "0 < p"
    by (simp add: zero_less_divide_iff)
  define a where "a = bitlen p"
  define b where "b = bitlen q"
  from bitlen_bounds [OF p] have pa: "2 ^ nat (a - 1) \<le> p" "p < 2 ^ nat a"
    by (simp_all add: a_def)
  from bitlen_bounds [OF q] have qb: "2 ^ nat (b - 1) \<le> q" "q < 2 ^ nat b"
    by (simp_all add: b_def)
  have a1: "1 \<le> a" using p by (simp add: a_def bitlen_alt_def)
  have b1: "1 \<le> b" using q by (simp add: b_def bitlen_alt_def)
  have ra: "(2::rat) powi (a - 1) \<le> of_int p" "of_int p < (2::rat) powi a"
  proof -
    have "(2::rat) powi (a - 1) = of_int (2 ^ nat (a - 1))"
      using a1 by (simp add: power_int_def)
    also have "\<dots> \<le> of_int p" using pa(1) by (simp only: of_int_le_iff)
    finally show "(2::rat) powi (a - 1) \<le> of_int p" .
    have "of_int p < (of_int (2 ^ nat a) :: rat)" using pa(2) by (simp only: of_int_less_iff)
    also have "\<dots> = 2 powi a" using a1 by (simp add: power_int_def)
    finally show "of_int p < (2::rat) powi a" .
  qed
  have rb: "(2::rat) powi (b - 1) \<le> of_int q" "of_int q < (2::rat) powi b"
  proof -
    have "(2::rat) powi (b - 1) = of_int (2 ^ nat (b - 1))"
      using b1 by (simp add: power_int_def)
    also have "\<dots> \<le> of_int q" using qb(1) by (simp only: of_int_le_iff)
    finally show "(2::rat) powi (b - 1) \<le> of_int q" .
    have "of_int q < (of_int (2 ^ nat b) :: rat)" using qb(2) by (simp only: of_int_less_iff)
    also have "\<dots> = 2 powi b" using b1 by (simp add: power_int_def)
    finally show "of_int q < (2::rat) powi b" .
  qed
  have qpos: "(0::rat) < of_int q" using q by simp
  have upper: "x < 2 powi (a - b + 1)"
  proof -
    have "x < 2 powi a / of_int q"
      unfolding x using ra(2) qpos by (simp add: divide_strict_right_mono)
    also have "\<dots> \<le> 2 powi a / 2 powi (b - 1)"
    proof (rule divide_left_mono [OF rb(1)])
      show "(0::rat) \<le> 2 powi a" by (simp add: zero_less_power_int less_imp_le)
      show "(0::rat) < of_int q * 2 powi (b - 1)"
        using qpos by (intro mult_pos_pos) (simp_all add: zero_less_power_int)
    qed
    also have "\<dots> = 2 powi (a - (b - 1))"
      by (simp add: power_int_diff)
    finally show ?thesis by (simp add: algebra_simps)
  qed
  have lower: "2 powi (a - b - 1) \<le> x"
  proof -
    have "(2::rat) powi (a - b - 1) = 2 powi (a - 1) / 2 powi b"
      by (simp add: power_int_diff [symmetric] algebra_simps)
    also have "\<dots> \<le> of_int p / 2 powi b"
      using ra(1) by (intro divide_right_mono) simp_all
    also have "\<dots> \<le> of_int p / of_int q"
    proof (rule divide_left_mono)
      show "of_int q \<le> (2::rat) powi b" using rb(2) by simp
      show "(0::rat) \<le> of_int p" using p by simp
      show "(0::rat) < 2 powi b * of_int q"
        using qpos by (intro mult_pos_pos) (simp_all add: zero_less_power_int)
    qed
    finally show ?thesis by (simp add: x)
  qed
  show ?thesis
  proof (cases "pow2 (a - b) \<le> x")
    case True
    then have "binade x = a - b"
      by (simp add: binade_def pq a_def b_def)
    with True upper show ?thesis by (simp add: pow2_powi)
  next
    case False
    then have "binade x = a - b - 1"
      by (simp add: binade_def pq a_def b_def)
    with False lower show ?thesis by (simp add: pow2_powi)
  qed
qed

lemma binary64_near:
  assumes "x \<noteq> 0"
  shows "\<bar>binary64 x - x\<bar> \<le> pow2 (binade \<bar>x\<bar> - 52) / 2"
proof -
  define u where "u = pow2 (binade \<bar>x\<bar> - 52)"
  have u: "0 < u" by (simp add: u_def pow2_powi zero_less_power_int)
  define n where "n = roundTiesToEven (\<bar>x\<bar> / u)"
  have b: "binary64 x = sgn x * (of_int n * u)"
    using assms by (simp add: binary64_def Let_def u_def n_def)
  have "\<bar>of_int n - \<bar>x\<bar> / u\<bar> \<le> 1 / 2"
    unfolding n_def by (rule roundTiesToEven_near)
  then have "\<bar>of_int n - \<bar>x\<bar> / u\<bar> * u \<le> 1 / 2 * u"
    using u by (intro mult_right_mono) simp_all
  moreover have "\<bar>of_int n - \<bar>x\<bar> / u\<bar> * u = \<bar>of_int n * u - \<bar>x\<bar>\<bar>"
  proof -
    have "\<bar>of_int n - \<bar>x\<bar> / u\<bar> * u = \<bar>(of_int n - \<bar>x\<bar> / u) * u\<bar>"
      using u by (simp add: abs_mult)
    also have "(of_int n - \<bar>x\<bar> / u) * u = of_int n * u - \<bar>x\<bar>"
      using u by (simp add: algebra_simps)
    finally show ?thesis .
  qed
  ultimately have near: "\<bar>of_int n * u - \<bar>x\<bar>\<bar> \<le> u / 2" by simp
  have "\<bar>binary64 x - x\<bar> = \<bar>of_int n * u - \<bar>x\<bar>\<bar>"
  proof (cases "0 < x")
    case True
    then show ?thesis by (simp add: b)
  next
    case False
    with assms have "x < 0" by simp
    then have "binary64 x - x = - (of_int n * u - \<bar>x\<bar>)" by (simp add: b)
    then show ?thesis by (simp only: abs_minus_cancel)
  qed
  with near show ?thesis by (simp add: u_def)
qed

lemma pow2_pos: "0 < pow2 e"
  by (simp add: pow2_def)

lemma roundTiesToEven_nonneg: "0 \<le> m \<Longrightarrow> 0 \<le> roundTiesToEven m"
proof -
  assume "0 \<le> m"
  then have "0 \<le> \<lfloor>m\<rfloor>" by simp
  then show ?thesis by (simp add: roundTiesToEven_def Let_def)
qed

lemma binary64_nonneg: "0 \<le> x \<Longrightarrow> 0 \<le> binary64 x"
proof (cases "x = 0")
  case True
  then show ?thesis by (simp add: binary64_def)
next
  case False
  assume "0 \<le> x"
  with False have pos: "0 < x" by simp
  have "0 \<le> \<bar>x\<bar> / pow2 (binade \<bar>x\<bar> - 52)"
    using pow2_pos [of "binade \<bar>x\<bar> - 52"] by simp
  then have "0 \<le> roundTiesToEven (\<bar>x\<bar> / pow2 (binade \<bar>x\<bar> - 52))"
    by (rule roundTiesToEven_nonneg)
  then have "0 \<le> of_int (roundTiesToEven (\<bar>x\<bar> / pow2 (binade \<bar>x\<bar> - 52))) * pow2 (binade \<bar>x\<bar> - 52)"
    using pow2_pos [of "binade \<bar>x\<bar> - 52"] by simp
  with pos False show ?thesis
    by (simp add: binary64_def Let_def)
qed

lemma Math_round_half_away: "0 \<le> x \<Longrightarrow> Math_round x = round_half_away_from_zero x"
  by (simp add: Math_round_def round_half_away_from_zero_def)

lemma percentage_nonneg_arg: "0 \<le> js_mul (js_div (of_nat c) (of_nat t)) 100"
proof -
  have "0 \<le> js_div (of_nat c) (of_nat t)"
    unfolding js_div_def by (rule binary64_nonneg) simp
  then show ?thesis
    unfolding js_mul_def by (intro binary64_nonneg) simp
qed

lemma Max_streak:
  assumes "hs \<noteq> []"
  shows "Max (set (map streak hs)) \<in> streak ` set hs"
    and "\<forall>h \<in> set hs. streak h \<le> Max (set (map streak hs))"
proof -
  have fin: "finite (set (map streak hs))" and ne: "set (map streak hs) \<noteq> {}"
    using assms by simp_all
  from Max_in [OF fin ne] show "Max (set (map streak hs)) \<in> streak ` set hs" by simp
  show "\<forall>h \<in> set hs. streak h \<le> Max (set (map streak hs))"
    using Max_ge [OF fin] by simp
qed

text \<open>
  What \<^verbatim>\<open>updateStats\<close> shows: the number of habits, the number of completed habits, the
  largest streak (0 for the empty array) and the percentage. The percentage is 0 for the
  empty array; otherwise it is the quotient of the two counts, rounded to a double, times
  100, rounded to a double, and that double rounded to an integer with halves going away
  from zero. (\<^verbatim>\<open>Math.round\<close> sends halves up, which is the same for the non-negative
  values that occur.)
\<close>

lemma stats_computed:
  "total (updateStats hs) = length hs \<and>
   completedCount (updateStats hs) = length (filter (\<lambda>h. completed h = True) hs) \<and>
   (\<forall>h \<in> set hs. streak h \<le> maxStreak (updateStats hs)) \<and>
   (hs \<noteq> [] \<longrightarrow> maxStreak (updateStats hs) \<in> streak ` set hs) \<and>
   (hs = [] \<longrightarrow> maxStreak (updateStats hs) = 0) \<and>
   percentage (updateStats hs) =
     (if length hs > 0
      then round_half_away_from_zero
             (js_mul (js_div (of_nat (length (filter (\<lambda>h. completed h = True) hs)))
                             (of_nat (length hs))) 100)
      else 0)"
proof (cases "hs = []")
  case True
  then show ?thesis by (simp add: updateStats_def updateProgressBar_def)
next
  case False
  from Max_streak [OF False] False show ?thesis
    by (simp add: updateStats_def updateProgressBar_def Let_def
        Math_round_half_away [OF percentage_nonneg_arg])
qed

lemma forty_length: "length forty_habits = 40"
  by (simp add: forty_habits_def)

lemma forty_completed: "length (filter (\<lambda>h. completed h = True) forty_habits) = 23"
  by code_simp

lemma forty_nonempty: "forty_habits \<noteq> []"
  using forty_length by auto

lemma div_23_40: "js_div 23 40 = 2589569785738035 / 4503599627370496"
  by code_simp

lemma mul_23_40: "js_mul (2589569785738035 / 4503599627370496) 100 = 8092405580431359 / 140737488355328"
  by code_simp

lemma round_23_40: "Math_round (8092405580431359 / 140737488355328) = 57"
  by code_simp

lemma progress_23_of_40: "updateProgressBar 40 23 = 57"
  by (simp add: updateProgressBar_def div_23_40 mul_23_40 round_23_40)

lemma forty_percentage: "percentage (updateStats forty_habits) = 57"
  using forty_completed
  by (simp add: updateStats_def Let_def forty_length progress_23_of_40)

lemma stats_computed_example:
  "forty_habits \<noteq> [] \<and>
   total (updateStats forty_habits) = 40 \<and>
   completedCount (updateStats forty_habits) = 23 \<and>
   sample_habit 0 \<in> set forty_habits \<and>
   streak (sample_habit 0) \<le> maxStreak (updateStats forty_habits) \<and>
   maxStreak (updateStats forty_habits) \<in> streak ` set forty_habits \<and>
   percentage (updateStats forty_habits) =
     round_half_away_from_zero (js_mul (js_div 23 40) 100)"
proof -
  have m: "sample_habit 0 \<in> set forty_habits"
    by (simp add: forty_habits_def)
  from stats_computed [of forty_habits] forty_nonempty forty_length forty_completed m
  show ?thesis by simp
qed

text \<open>
  Multiplying first keeps the operands exact: 23 times 100 is 2300, 2300 / 40 is the
  double 57.5, and \<^verbatim>\<open>Math.round\<close> of it is 58.
\<close>

lemma mul_first_23_40: "js_mul 23 100 = 2300"
  by code_simp

lemma div_first_23_40: "js_div 2300 40 = 115 / 2"
  by code_simp

lemma round_first_23_40: "Math_round (115 / 2) = 58"
  by code_simp

lemma multiply_first_23_of_40: "Math_round (js_div (js_mul 23 100) 40) = 58"
  by (simp only: mul_first_23_40 div_first_23_40 round_first_23_40)

text \<open>
  C9 (the code at the failing input). With 23 of 40 habits completed, \<^verbatim>\<open>updateStats\<close>
  counts 40 and 23, and the exact percentage is 57.5, which rounds to 58 with halves
  going away from zero. The code divides first: the double nearest to 23/40 lies below
  it, its product with 100 rounds to the double just below 57.5, and the page shows 57.
\<close>

theorem percentage_23_of_40:
  "total (updateStats forty_habits) = 40 \<and>
   completedCount (updateStats forty_habits) = 23 \<and>
   percentage (updateStats forty_habits) = 57 \<and>
   round_half_away_from_zero (23 / 40 * 100) = 58"
proof -
  have "round_half_away_from_zero (23 / 40 * 100) = 58"
    by (simp add: round_half_away_from_zero_def)
  with forty_percentage forty_completed show ?thesis
    by (simp add: updateStats_def Let_def forty_length)
qed

subsection \<open>Persistence\<close>

text \<open>
  The codec of the model decodes what it encodes, for every array of habits: first strings
  (every code unit, escaped or not, comes back), then integers, then objects and arrays
  of them, with the fuel the length of the text provides.
\<close>

lemma nib_nat:
  "(n::nat) = n div 4096 * 4096 + n div 256 mod 16 * 256 + n div 16 mod 16 * 16 + n mod 16"
proof -
  have a: "n div 256 = n div 16 div 16" and b: "n div 4096 = n div 256 div 16"
    by (simp_all add: div_mult2_eq [symmetric])
  have "n = n div 16 * 16 + n mod 16" by simp
  also have "n div 16 = n div 256 * 16 + n div 16 mod 16"
    unfolding a by simp
  also have "n div 256 = n div 4096 * 16 + n div 256 mod 16"
    unfolding b by simp
  finally show ?thesis by (simp add: algebra_simps)
qed

lemma nibbles:
  fixes c :: "16 word"
  shows "(c div 0x1000) * 0x1000 + (c div 0x100 mod 0x10) * 0x100 +
         (c div 0x10 mod 0x10) * 0x10 + c mod 0x10 = c"
proof -
  have e1: "of_nat (unat c div 4096) = c div 0x1000"
  proof -
    have h: "unat (c div 0x1000) = unat c div 4096" by (simp add: unat_div)
    have "of_nat (unat (c div 0x1000)) = c div 0x1000" by simp
    then show ?thesis by (simp only: h)
  qed
  have e2: "of_nat (unat c div 256 mod 16) = c div 0x100 mod 0x10"
  proof -
    have h: "unat (c div 0x100 mod 0x10) = unat c div 256 mod 16" by (simp add: unat_div unat_mod)
    have "of_nat (unat (c div 0x100 mod 0x10)) = c div 0x100 mod 0x10" by simp
    then show ?thesis by (simp only: h)
  qed
  have e3: "of_nat (unat c div 16 mod 16) = c div 0x10 mod 0x10"
  proof -
    have h: "unat (c div 0x10 mod 0x10) = unat c div 16 mod 16" by (simp add: unat_div unat_mod)
    have "of_nat (unat (c div 0x10 mod 0x10)) = c div 0x10 mod 0x10" by simp
    then show ?thesis by (simp only: h)
  qed
  have e4: "of_nat (unat c mod 16) = c mod 0x10"
  proof -
    have h: "unat (c mod 0x10) = unat c mod 16" by (simp add: unat_mod)
    have "of_nat (unat (c mod 0x10)) = c mod 0x10" by simp
    then show ?thesis by (simp only: h)
  qed
  have "c = of_nat (unat c)" by simp
  also have "\<dots> = of_nat (unat c div 4096 * 4096 + unat c div 256 mod 16 * 256 +
                      unat c div 16 mod 16 * 16 + unat c mod 16)"
    using nib_nat [of "unat c"] by simp
  also have "\<dots> = (c div 0x1000) * 0x1000 + (c div 0x100 mod 0x10) * 0x100 +
         (c div 0x10 mod 0x10) * 0x10 + c mod 0x10"
    by (simp only: of_nat_add of_nat_mult e1 e2 e3 e4) simp
  finally show ?thesis by simp
qed

lemma nibble_bounds:
  fixes c :: "16 word"
  shows "c div 0x1000 < 0x10" "c div 0x100 mod 0x10 < 0x10" "c div 0x10 mod 0x10 < 0x10"
    "c mod 0x10 < 0x10"
proof -
  have b: "unat c < 65536" using unsigned_less [of c, where ?'a = nat] by simp
  then have "unat c div 4096 < 16" by simp
  then show "c div 0x1000 < 0x10"
    by (simp add: word_less_nat_alt unat_div)
  show "c div 0x100 mod 0x10 < 0x10" "c div 0x10 mod 0x10 < 0x10" "c mod 0x10 < 0x10"
    by (simp_all add: word_less_nat_alt unat_mod)
qed

lemma hexval_hexdigit: "n < 0x10 \<Longrightarrow> hexval (hexdigit n) = Some n"
  unfolding hexval_def hexdigit_def
  by (auto simp: word_less_nat_alt word_le_nat_alt unat_word_ariths)

lemma hex4_escape:
  "hex4 (hexdigit (c div 0x1000)) (hexdigit (c div 0x100 mod 0x10))
        (hexdigit (c div 0x10 mod 0x10)) (hexdigit (c mod 0x10)) = Some c"
  by (simp add: hex4_def hexval_hexdigit nibble_bounds nibbles)

lemma parse_chars_escape:
  "parse_chars (unicode_escape c @ t) =
     (case parse_chars t of None \<Rightarrow> None | Some (str, r) \<Rightarrow> Some (c # str, r))"
  by (simp add: unicode_escape_def hex4_escape)

lemma parse_chars_plain:
  "c \<noteq> 0x22 \<Longrightarrow> c \<noteq> 0x5C \<Longrightarrow> \<not> c < 0x20 \<Longrightarrow>
   parse_chars (c # t) =
     (case parse_chars t of None \<Rightarrow> None | Some (str, r) \<Rightarrow> Some (c # str, r))"
  by simp

lemma surrogate_plain:
  "is_lead c \<or> is_trail c \<Longrightarrow> c \<noteq> 0x22 \<and> c \<noteq> 0x5C \<and> \<not> c < 0x20"
  by (auto simp: is_lead_def is_trail_def word_le_nat_alt word_less_nat_alt)

lemma quote_step_short:
  "parse_chars (quote_chars cs @ 0x22 # rest) = Some (cs, rest) \<Longrightarrow>
   c = 0x22 \<or> c = 0x5C \<or> c = 0x8 \<or> c = 0x9 \<or> c = 0xA \<or> c = 0xC \<or> c = 0xD \<Longrightarrow>
   parse_chars (quote_chars (c # cs) @ 0x22 # rest) = Some (c # cs, rest)"
  by (elim disjE) (simp_all add: unescape_def)

lemma quote_chars_other:
  assumes "\<not> (c = 0x22 \<or> c = 0x5C \<or> c = 0x8 \<or> c = 0x9 \<or> c = 0xA \<or> c = 0xC \<or> c = 0xD)"
  shows "quote_chars (c # cs) =
     (if c < 0x20 then unicode_escape c @ quote_chars cs
      else if is_lead c then
        (case cs of
           [] \<Rightarrow> unicode_escape c
         | d # ds \<Rightarrow> if is_trail d then c # d # quote_chars ds
                     else unicode_escape c @ quote_chars cs)
      else if is_trail c then unicode_escape c @ quote_chars cs
      else c # quote_chars cs)"
  using assms by simp

lemma quote_step_other:
  assumes tail: "parse_chars (quote_chars cs @ 0x22 # rest) = Some (cs, rest)"
    and pair: "\<And>d ds. cs = d # ds \<Longrightarrow> parse_chars (quote_chars ds @ 0x22 # rest) = Some (ds, rest)"
    and other: "\<not> (c = 0x22 \<or> c = 0x5C \<or> c = 0x8 \<or> c = 0x9 \<or> c = 0xA \<or> c = 0xC \<or> c = 0xD)"
  shows "parse_chars (quote_chars (c # cs) @ 0x22 # rest) = Some (c # cs, rest)"
proof (cases "c < 0x20")
  case True
  then show ?thesis
    by (simp only: quote_chars_other [OF other] if_True append_assoc parse_chars_escape tail)
       simp
next
  case ctl: False
  show ?thesis
  proof (cases "is_lead c")
    case True
    from surrogate_plain [of c] True have pc: "c \<noteq> 0x22" "c \<noteq> 0x5C" "\<not> c < 0x20"
      by simp_all
    show ?thesis
    proof (cases cs)
      case Nil
      have "parse_chars (unicode_escape c @ 0x22 # rest) = Some ([c], rest)"
        by (simp only: parse_chars_escape) simp
      with ctl True Nil show ?thesis
        by (simp only: quote_chars_other [OF other] if_True if_False list.case append_assoc)
    next
      case (Cons d ds)
      show ?thesis
      proof (cases "is_trail d")
        case tr: True
        from surrogate_plain [of d] tr have pd: "d \<noteq> 0x22" "d \<noteq> 0x5C" "\<not> d < 0x20"
          by simp_all
        have "parse_chars (c # d # quote_chars ds @ 0x22 # rest) = Some (c # d # ds, rest)"
          by (simp only: parse_chars_plain [OF pc] parse_chars_plain [OF pd] pair [OF Cons]) simp
        with ctl True Cons tr show ?thesis
          by (simp only: quote_chars_other [OF other] if_True if_False list.case append_Cons)
      next
        case ntr: False
        have "parse_chars (unicode_escape c @ quote_chars cs @ 0x22 # rest) = Some (c # cs, rest)"
          by (simp only: parse_chars_escape tail) simp
        with ctl True Cons ntr show ?thesis
          by (simp only: quote_chars_other [OF other] if_True if_False list.case append_assoc)
      qed
    qed
  next
    case nl: False
    show ?thesis
    proof (cases "is_trail c")
      case True
      have "parse_chars (unicode_escape c @ quote_chars cs @ 0x22 # rest) = Some (c # cs, rest)"
        by (simp only: parse_chars_escape tail) simp
      with ctl nl True show ?thesis
        by (simp only: quote_chars_other [OF other] if_True if_False append_assoc)
    next
      case False
      from other ctl have pc: "c \<noteq> 0x22" "c \<noteq> 0x5C" "\<not> c < 0x20" by simp_all
      have "parse_chars (c # quote_chars cs @ 0x22 # rest) = Some (c # cs, rest)"
        by (simp only: parse_chars_plain [OF pc] tail) simp
      with ctl nl False show ?thesis
        by (simp only: quote_chars_other [OF other] if_True if_False append_Cons)
    qed
  qed
qed

lemma parse_chars_quote_chars:
  "parse_chars (quote_chars s @ 0x22 # rest) = Some (s, rest)"
proof (induction "length s" arbitrary: s rule: less_induct)
  case less
  show ?case
  proof (cases s)
    case Nil
    then show ?thesis by simp
  next
    case (Cons c cs)
    have tail: "parse_chars (quote_chars cs @ 0x22 # rest) = Some (cs, rest)"
      using less [of cs] Cons by simp
    have pair: "parse_chars (quote_chars ds @ 0x22 # rest) = Some (ds, rest)" if "cs = d # ds" for d ds
      using less [of ds] Cons that by simp
    show ?thesis
    proof (cases "c = 0x22 \<or> c = 0x5C \<or> c = 0x8 \<or> c = 0x9 \<or> c = 0xA \<or> c = 0xC \<or> c = 0xD")
      case True
      from quote_step_short [OF tail True] Cons show ?thesis by simp
    next
      case False
      from quote_step_other [OF tail pair False] Cons show ?thesis by simp
    qed
  qed
qed

lemma parse_value_quote:
  "parse_value (Suc n) (quote s @ rest) = Some (JStr s, rest)"
  by (simp add: quote_def parse_chars_quote_chars del: parse_chars.simps)

lemma digit_char:
  assumes "0 \<le> d" "d < 10"
  shows "is_digit (0x30 + word_of_int d)"
    and "uint (0x30 + word_of_int d :: 16 word) = 48 + d"
    and "(0x30 + word_of_int d :: 16 word) = 0x30 \<longleftrightarrow> d = 0"
proof -
  have u: "uint (0x30 + word_of_int d :: 16 word) = 48 + d"
  proof -
    have "(0x30 + word_of_int d :: 16 word) = word_of_int (48 + d)" by simp
    then have "uint (0x30 + word_of_int d :: 16 word) = take_bit 16 (48 + d)"
      by (simp only: uint_word_of_int_eq) simp
    with assms show ?thesis by (simp add: take_bit_eq_mod)
  qed
  show "uint (0x30 + word_of_int d :: 16 word) = 48 + d" by (rule u)
  show "is_digit (0x30 + word_of_int d)"
    using assms u by (simp add: is_digit_def word_le_def)
  show "(0x30 + word_of_int d :: 16 word) = 0x30 \<longleftrightarrow> d = 0"
    using u by (auto simp: word_uint_eq_iff)
qed

lemma digits_of_small: "n < 10 \<Longrightarrow> digits_of n = [0x30 + word_of_int n]"
  by (subst digits_of.simps) simp

lemma digits_of_large:
  "\<not> n < 10 \<Longrightarrow> digits_of n = digits_of (n div 10) @ [0x30 + word_of_int (n mod 10)]"
  by (subst digits_of.simps) simp

lemma digits_of_nonempty: "digits_of n \<noteq> []"
  by (cases "n < 10") (simp_all add: digits_of_small digits_of_large)

lemma digits_of_digits: "0 \<le> n \<Longrightarrow> c \<in> set (digits_of n) \<Longrightarrow> is_digit c"
proof (induction n rule: digits_of.induct)
  case (1 n)
  show ?case
  proof (cases "n < 10")
    case True
    with "1.prems" digit_char(1) [of n] show ?thesis
      by (simp add: digits_of_small)
  next
    case False
    have m: "0 \<le> n mod 10" "n mod 10 < 10" by simp_all
    from "1.prems"(1) have "0 \<le> n div 10" by simp
    with "1.IH" [OF False] have "c \<in> set (digits_of (n div 10)) \<Longrightarrow> is_digit c" by simp
    with "1.prems"(2) digit_char(1) [OF m] show ?thesis
      by (auto simp: digits_of_large [OF False])
  qed
qed

lemma digits_value_append:
  "digits_value acc (xs @ ys) = digits_value (digits_value acc xs) ys"
  by (induction xs arbitrary: acc) simp_all

lemma digits_value_digits: "0 \<le> n \<Longrightarrow> digits_value 0 (digits_of n) = n"
proof (induction n rule: digits_of.induct)
  case (1 n)
  show ?case
  proof (cases "n < 10")
    case True
    with "1.prems" digit_char(2) [of n] show ?thesis
      by (simp add: digits_of_small)
  next
    case False
    have m: "0 \<le> n mod 10" "n mod 10 < 10" by simp_all
    from "1.prems" have "0 \<le> n div 10" by simp
    with "1.IH" [OF False] have "digits_value 0 (digits_of (n div 10)) = n div 10" by simp
    with digit_char(2) [OF m] show ?thesis
      by (simp add: digits_of_large [OF False] digits_value_append)
  qed
qed

lemma digits_of_leading: "0 < n \<Longrightarrow> hd (digits_of n) \<noteq> 0x30"
proof (induction n rule: digits_of.induct)
  case (1 n)
  show ?case
  proof (cases "n < 10")
    case True
    with "1.prems" digit_char(3) [of n] show ?thesis
      by (simp add: digits_of_small)
  next
    case False
    then have "0 < n div 10" by simp
    with "1.IH" [OF False] have "hd (digits_of (n div 10)) \<noteq> 0x30" by simp
    with digits_of_nonempty [of "n div 10"] show ?thesis
      by (simp add: digits_of_large [OF False])
  qed
qed

lemma number_ends_stop:
  assumes "number_ends rest"
  shows "takeWhile is_digit rest = []" and "dropWhile is_digit rest = rest"
    and "\<not> (rest \<noteq> [] \<and> (hd rest = 0x2E \<or> hd rest = 0x65 \<or> hd rest = 0x45))"
  using assms by (auto simp: number_ends_def is_digit_def split: list.splits)

lemma parse_nat_digits:
  assumes "0 \<le> n" and "number_ends rest"
  shows "parse_nat (digits_of n @ rest) = Some (n, rest)"
proof -
  have all: "\<And>c. c \<in> set (digits_of n) \<Longrightarrow> is_digit c"
    using digits_of_digits [OF assms(1)] by simp
  have tw: "takeWhile is_digit (digits_of n @ rest) = digits_of n"
    using all number_ends_stop(1) [OF assms(2)] by (simp add: takeWhile_append2)
  have dw: "dropWhile is_digit (digits_of n @ rest) = rest"
    using all number_ends_stop(2) [OF assms(2)] by (simp add: dropWhile_append2)
  have lead: "\<not> (hd (digits_of n) = 0x30 \<and> length (digits_of n) > 1)"
  proof (cases "n = 0")
    case True
    then show ?thesis by (simp add: digits_of_small)
  next
    case False
    with assms(1) digits_of_leading [of n] show ?thesis by simp
  qed
  show ?thesis
    unfolding parse_nat_def tw dw Let_def
    using lead digits_of_nonempty [of n] number_ends_stop(3) [OF assms(2)]
      digits_value_digits [OF assms(1)]
    by simp
qed

lemma parse_number_text:
  assumes "number_ends rest"
  shows "parse_number (number_text i @ rest) = Some (JNum i, rest)"
proof (cases "i < 0")
  case True
  then have "0 \<le> - i" by simp
  from parse_nat_digits [OF this assms] True show ?thesis
    by (simp add: parse_number_def number_text_def)
next
  case False
  then have nn: "0 \<le> i" by simp
  obtain c cs where d: "digits_of i = c # cs"
    using digits_of_nonempty [of i] by (cases "digits_of i") auto
  with digits_of_digits [OF nn, of c] have "is_digit c" by simp
  then have "c \<noteq> 0x2D" by (auto simp: is_digit_def)
  with parse_nat_digits [OF nn assms] False d show ?thesis
    by (simp add: parse_number_def number_text_def)
qed

lemma number_text_head:
  "\<exists>c cs. number_text i = c # cs \<and> (c = 0x2D \<or> is_digit c)"
proof (cases "i < 0")
  case True
  then show ?thesis by (simp add: number_text_def)
next
  case False
  then have nn: "0 \<le> i" by simp
  obtain c cs where d: "digits_of i = c # cs"
    using digits_of_nonempty [of i] by (cases "digits_of i") auto
  with digits_of_digits [OF nn, of c] have "is_digit c" by simp
  with d False show ?thesis by (simp add: number_text_def)
qed

lemma parse_value_number:
  assumes "number_ends rest"
  shows "parse_value (Suc n) (number_text i @ rest) = Some (JNum i, rest)"
proof -
  from number_text_head [of i] obtain c cs
    where h: "number_text i = c # cs" and c: "c = 0x2D \<or> is_digit c"
    by blast
  from c have ne: "c \<noteq> 0x6E" "c \<noteq> 0x74" "c \<noteq> 0x66" "c \<noteq> 0x22" "c \<noteq> 0x5B" "c \<noteq> 0x7B"
    by (auto simp: is_digit_def)
  have "parse_value (Suc n) (c # cs @ rest) = parse_number (c # cs @ rest)"
    using ne by simp
  with parse_number_text [OF assms, of i] h show ?thesis by simp
qed

lemma skip_ws_Cons: "\<not> is_json_ws c \<Longrightarrow> skip_ws (c # cs) = c # cs"
  by (simp add: skip_ws_def)

lemma skip_ws_Nil: "skip_ws [] = []"
  by (simp add: skip_ws_def)

lemma punct_not_ws:
  "\<not> is_json_ws 0x22" "\<not> is_json_ws 0x2C" "\<not> is_json_ws 0x3A" "\<not> is_json_ws 0x5B"
  "\<not> is_json_ws 0x5D" "\<not> is_json_ws 0x7B" "\<not> is_json_ws 0x7D"
  by (simp_all add: is_json_ws_def)

lemma skip_ws_quote: "skip_ws (quote k @ t) = quote k @ t"
  by (simp add: quote_def skip_ws_Cons punct_not_ws)

lemma parse_value_scalar:
  assumes "scalar v" and "number_ends rest"
  shows "parse_value (Suc n) (JSON_stringify v @ rest) = Some (v, rest)"
proof (cases v)
  case JNull
  then show ?thesis by (simp add: js_def parse_literal_def)
next
  case (JBool b)
  then show ?thesis by (cases b) (simp_all add: js_def parse_literal_def)
next
  case (JNum i)
  with parse_value_number [OF assms(2)] show ?thesis by simp
next
  case (JStr s)
  with parse_value_quote show ?thesis by simp
next
  case (JArr vs)
  with assms(1) show ?thesis by (simp add: scalar_def)
next
  case (JObj kvs)
  with assms(1) show ?thesis by (simp add: scalar_def)
qed

lemma skip_ws_scalar:
  assumes "scalar v"
  shows "skip_ws (JSON_stringify v @ rest) = JSON_stringify v @ rest"
proof (cases v)
  case JNull
  then show ?thesis by (simp add: js_def skip_ws_def is_json_ws_def)
next
  case (JBool b)
  then show ?thesis by (cases b) (simp_all add: js_def skip_ws_def is_json_ws_def)
next
  case (JNum i)
  from number_text_head [of i] obtain c cs
    where h: "number_text i = c # cs" and c: "c = 0x2D \<or> is_digit c"
    by blast
  from c have "\<not> is_json_ws c" by (auto simp: is_digit_def is_json_ws_def)
  with JNum h show ?thesis by (simp add: skip_ws_Cons)
next
  case (JStr s)
  then show ?thesis by (simp add: skip_ws_quote)
next
  case (JArr vs)
  with assms show ?thesis by (simp add: scalar_def)
next
  case (JObj kvs)
  with assms show ?thesis by (simp add: scalar_def)
qed

lemma ends_after_value: "number_ends (0x2C # t)" "number_ends (0x5D # t)" "number_ends (0x7D # t)"
  by (simp_all add: number_ends_def)

lemma parse_member_last:
  assumes "scalar v"
  shows "parse_members (Suc (Suc n)) (member_text (k, v) @ 0x7D # rest) = Some ([(k, v)], rest)"
proof -
  have "parse_members (Suc (Suc n)) (0x22 # quote_chars k @ 0x22 # 0x3A # JSON_stringify v @ 0x7D # rest)
        = Some ([(k, v)], rest)"
    by (simp add: parse_chars_quote_chars skip_ws_Cons punct_not_ws skip_ws_scalar [OF assms]
        parse_value_scalar [OF assms ends_after_value(3)] del: parse_chars.simps parse_value.simps)
  then show ?thesis by (simp add: member_text_def quote_def)
qed

lemma parse_member_more:
  assumes "scalar v"
  shows "parse_members (Suc (Suc n)) (member_text (k, v) @ 0x2C # quote k' @ t) =
     (case parse_members (Suc n) (quote k' @ t) of
        None \<Rightarrow> None
      | Some (kvs, rest) \<Rightarrow> Some ((k, v) # kvs, rest))"
proof -
  have "parse_members (Suc (Suc n))
          (0x22 # quote_chars k @ 0x22 # 0x3A # JSON_stringify v @ 0x2C # quote k' @ t) =
     (case parse_members (Suc n) (quote k' @ t) of
        None \<Rightarrow> None
      | Some (kvs, rest) \<Rightarrow> Some ((k, v) # kvs, rest))"
    by (subst parse_members.simps(2))
       (simp add: parse_chars_quote_chars skip_ws_Cons punct_not_ws skip_ws_scalar [OF assms]
          skip_ws_quote parse_value_scalar [OF assms ends_after_value(1)]
          del: parse_chars.simps parse_value.simps parse_members.simps)
  then show ?thesis by (simp add: member_text_def quote_def)
qed

lemma comma_join_member_head:
  "comma_join (map member_text ((k, v) # kvs)) @ t =
     quote k @ (0x3A # JSON_stringify v @ drop (length (member_text (k, v)))
                  (comma_join (map member_text ((k, v) # kvs)) @ t))"
  by (cases kvs) (simp_all add: member_text_def)

lemma parse_members_text:
  assumes "kvs \<noteq> []" and "list_all (\<lambda>kv. scalar (snd kv)) kvs"
  shows "parse_members (Suc (length kvs + n)) (comma_join (map member_text kvs) @ 0x7D # rest)
         = Some (kvs, rest)"
  using assms
proof (induction kvs)
  case Nil
  then show ?case by simp
next
  case (Cons kv kvs)
  obtain k v where kv: "kv = (k, v)" by (cases kv)
  from Cons.prems(2) kv have sv: "scalar v" by simp
  show ?case
  proof (cases kvs)
    case Nil
    with kv parse_member_last [OF sv, of n k rest] show ?thesis by simp
  next
    case (Cons kv' kvs')
    obtain k' v' where kv': "kv' = (k', v')" by (cases kv')
    from Cons.prems(2) Cons have "list_all (\<lambda>kv. scalar (snd kv)) kvs" by simp
    with Cons.IH Cons
    have IH: "parse_members (Suc (length kvs + n)) (comma_join (map member_text kvs) @ 0x7D # rest)
              = Some (kvs, rest)"
      by simp
    have shape: "comma_join (map member_text kvs) @ 0x7D # rest = quote k' @
        (0x3A # JSON_stringify v' @
           drop (length (member_text (k', v'))) (comma_join (map member_text kvs) @ 0x7D # rest))"
      unfolding Cons kv' by (rule comma_join_member_head)
    have "parse_members (Suc (Suc (length kvs + n)))
            (member_text (k, v) @ 0x2C # comma_join (map member_text kvs) @ 0x7D # rest)
          = Some ((k, v) # kvs, rest)"
      by (subst shape, subst parse_member_more [OF sv], subst shape [symmetric], subst IH) simp
    with kv Cons show ?thesis by simp
  qed
qed

lemma parse_value_flat_object:
  assumes "flat_object k v"
  shows "parse_value (Suc (Suc (k + n))) (JSON_stringify v @ rest) = Some (v, rest)"
proof -
  from assms obtain kvs where v: "v = JObj kvs" and ne: "kvs \<noteq> []" and len: "length kvs = k"
    and sc: "list_all (\<lambda>kv. scalar (snd kv)) kvs"
    by (auto simp: flat_object_def split: json.splits)
  obtain kv kvs' where c: "kvs = kv # kvs'" using ne by (cases kvs) auto
  obtain key val where kv: "kv = (key, val)" by (cases kv)
  from len have m: "k + n = length kvs + n" by simp
  have mt: "map (\<lambda>kv. quote (fst kv) @ 0x3A # JSON_stringify (snd kv)) kvs = map member_text kvs"
    by (simp add: member_text_def)
  obtain ds where head: "comma_join (map member_text kvs) @ 0x7D # rest = 0x22 # ds"
    unfolding c kv by (cases kvs') (simp_all add: member_text_def quote_def)
  have "parse_value (Suc (Suc (length kvs + n))) (0x7B # 0x22 # ds) =
          (case parse_members (Suc (length kvs + n)) (0x22 # ds) of
             None \<Rightarrow> None
           | Some (kvs, rest) \<Rightarrow> Some (JObj kvs, rest))"
    by (simp add: skip_ws_Cons punct_not_ws del: parse_members.simps)
  also have "parse_members (Suc (length kvs + n)) (0x22 # ds) = Some (kvs, rest)"
    unfolding head [symmetric] by (rule parse_members_text [OF ne sc])
  finally have "parse_value (Suc (Suc (length kvs + n)))
          (0x7B # comma_join (map member_text kvs) @ 0x7D # rest) = Some (JObj kvs, rest)"
    by (simp add: head)
  with v m show ?thesis by (simp add: mt)
qed

lemma flat_object_head: "flat_object k v \<Longrightarrow> \<exists>t. JSON_stringify v = 0x7B # t"
  by (auto simp: flat_object_def split: json.splits)

lemma parse_element_last:
  assumes "flat_object k v"
  shows "parse_elements (Suc (Suc (Suc (k + n)))) (JSON_stringify v @ 0x5D # rest) = Some ([v], rest)"
  by (subst parse_elements.simps(2))
     (simp add: parse_value_flat_object [OF assms] skip_ws_Cons punct_not_ws
        del: parse_value.simps parse_elements.simps)

lemma parse_element_more:
  assumes "flat_object k v"
  shows "parse_elements (Suc (Suc (Suc (k + n)))) (JSON_stringify v @ 0x2C # 0x7B # t) =
     (case parse_elements (Suc (Suc (k + n))) (0x7B # t) of
        None \<Rightarrow> None
      | Some (vs, rest) \<Rightarrow> Some (v # vs, rest))"
  by (subst parse_elements.simps(2))
     (simp add: parse_value_flat_object [OF assms] skip_ws_Cons punct_not_ws
        del: parse_value.simps parse_elements.simps)

lemma parse_elements_text:
  assumes "vs \<noteq> []" and "list_all (flat_object k) vs"
  shows "parse_elements (Suc (Suc (k + length vs + n)))
           (comma_join (map JSON_stringify vs) @ 0x5D # rest) = Some (vs, rest)"
  using assms
proof (induction vs arbitrary: n)
  case Nil
  then show ?case by simp
next
  case (Cons v vs)
  from Cons.prems(2) have fv: "flat_object k v" by simp
  show ?case
  proof (cases vs)
    case Nil
    with parse_element_last [OF fv, of n rest] show ?thesis by simp
  next
    case (Cons v' vs')
    from Cons.prems(2) Cons have fl: "list_all (flat_object k) vs" and fv': "flat_object k v'"
      by simp_all
    from Cons.IH [OF _ fl, of n] Cons
    have IH: "parse_elements (Suc (Suc (k + length vs + n)))
                (comma_join (map JSON_stringify vs) @ 0x5D # rest) = Some (vs, rest)"
      by simp
    from flat_object_head [OF fv'] obtain t where t: "JSON_stringify v' = 0x7B # t" by blast
    obtain u where shape: "comma_join (map JSON_stringify vs) @ 0x5D # rest = 0x7B # u"
      unfolding Cons by (cases vs') (simp_all add: t)
    have "parse_elements (Suc (Suc (Suc (k + (length vs + n)))))
            (JSON_stringify v @ 0x2C # 0x7B # u)
          = (case parse_elements (Suc (Suc (k + (length vs + n)))) (0x7B # u) of
               None \<Rightarrow> None
             | Some (vs, rest) \<Rightarrow> Some (v # vs, rest))"
      by (rule parse_element_more [OF fv])
    also have "parse_elements (Suc (Suc (k + (length vs + n)))) (0x7B # u) = Some (vs, rest)"
      using IH unfolding shape by (simp only: add.assoc)
    finally have "parse_elements (Suc (Suc (Suc (k + (length vs + n)))))
            (JSON_stringify v @ 0x2C # comma_join (map JSON_stringify vs) @ 0x5D # rest)
          = Some (v # vs, rest)"
      unfolding shape by simp
    with Cons show ?thesis by (simp add: add.assoc del: parse_elements.simps)
  qed
qed

lemma comma_join_length:
  "xs \<noteq> [] \<Longrightarrow> \<forall>x \<in> set xs. m \<le> length x \<Longrightarrow> m + length xs \<le> Suc (length (comma_join xs))"
proof (induction xs rule: comma_join.induct)
  case 1
  then show ?case by simp
next
  case (2 x)
  then show ?case by simp
next
  case (3 x y r)
  then have "m + length (y # r) \<le> Suc (length (comma_join (y # r)))" by simp
  with "3.prems" show ?case by simp
qed

lemma stringify_object:
  "JSON_stringify (JObj kvs) = 0x7B # comma_join (map member_text kvs) @ [0x7D]"
proof -
  have "(\<lambda>kv. quote (fst kv) @ 0x3A # JSON_stringify (snd kv)) = member_text"
    by (rule ext) (simp add: member_text_def)
  then show ?thesis by simp
qed

lemma flat_object_length:
  assumes "flat_object k v"
  shows "k + 2 \<le> length (JSON_stringify v)"
proof -
  from assms obtain kvs where v: "v = JObj kvs" and ne: "kvs \<noteq> []" and len: "length kvs = k"
    by (auto simp: flat_object_def split: json.splits)
  have "\<forall>x \<in> set (map member_text kvs). 1 \<le> length x"
    by (simp add: member_text_def)
  with comma_join_length [of "map member_text kvs" 1] ne
  have "length kvs \<le> length (comma_join (map member_text kvs))" by simp
  with len show ?thesis
    unfolding v stringify_object by simp
qed

lemma JSON_parse_flat_array:
  assumes "list_all (flat_object k) vs"
  shows "JSON_parse (JSON_stringify (JArr vs)) = Some (JArr vs)"
proof (cases vs)
  case Nil
  then show ?thesis
    by (simp add: JSON_parse_def skip_ws_Cons skip_ws_Nil punct_not_ws)
next
  case (Cons v vs')
  then have ne: "vs \<noteq> []" by simp
  let ?body = "comma_join (map JSON_stringify vs)"
  have "\<forall>x \<in> set (map JSON_stringify vs). k + 2 \<le> length x"
    using assms flat_object_length by (auto simp: list_all_iff)
  with comma_join_length [of "map JSON_stringify vs" "k + 2"] ne
  have "k + 2 + length vs \<le> Suc (length ?body)" by simp
  then obtain n where n: "length ?body = Suc (k + length vs + n)"
    by (metis add_Suc_right add_2_eq_Suc' le_Suc_ex add.assoc add.commute Suc_le_mono)
  from Cons assms have "flat_object k v" by simp
  from flat_object_head [OF this] obtain t where t: "JSON_stringify v = 0x7B # t" by blast
  obtain u where shape: "?body @ [0x5D] = 0x7B # u"
    unfolding Cons by (cases vs') (simp_all add: t)
  have el: "parse_elements (Suc (Suc (k + length vs + Suc n))) (?body @ [0x5D]) = Some (vs, [])"
    using parse_elements_text [OF ne assms, of "Suc n" "[]"] by simp
  have "parse_value (Suc (Suc (Suc (k + length vs + Suc n)))) (0x5B # 0x7B # u) =
          (case parse_elements (Suc (Suc (k + length vs + Suc n))) (0x7B # u) of
             None \<Rightarrow> None
           | Some (vs, rest) \<Rightarrow> Some (JArr vs, rest))"
    by (simp add: skip_ws_Cons punct_not_ws del: parse_elements.simps)
  also have "parse_elements (Suc (Suc (k + length vs + Suc n))) (0x7B # u) = Some (vs, [])"
    using el unfolding shape .
  finally have pv: "parse_value (Suc (Suc (Suc (k + length vs + Suc n)))) (0x5B # ?body @ [0x5D])
                    = Some (JArr vs, [])"
    unfolding shape by simp
  have shape_arr: "JSON_stringify (JArr vs) = 0x5B # ?body @ [0x5D]" by simp
  have len: "Suc (length (JSON_stringify (JArr vs))) = Suc (Suc (Suc (k + length vs + Suc n)))"
    unfolding shape_arr using n by simp
  show ?thesis
    unfolding JSON_parse_def len
    by (simp only: shape_arr skip_ws_Cons [OF punct_not_ws(4)] pv) (simp add: skip_ws_Nil)
qed

lemma habit_obj_flat: "flat_object 7 (habit_obj h)"
  by (simp add: flat_object_def habit_obj_def scalar_def split: option.splits)

lemma habits_text_roundtrip:
  "JSON_parse (JSON_stringify (habits_value c)) = Some (habits_value c)"
  unfolding habits_value_def
  by (rule JSON_parse_flat_array [of 7]) (simp add: list_all_iff habit_obj_flat)

lemma habit_obj_inj: "habit_obj h = habit_obj h' \<Longrightarrow> h = h'"
  by (cases h, cases h') (auto simp: habit_obj_def split: option.splits)

lemma habits_value_inj: "habits_value c = habits_value c' \<Longrightarrow> c = c'"
proof -
  have "inj habit_obj" by (rule injI) (rule habit_obj_inj)
  then have "inj (map habit_obj)" by simp
  moreover assume "habits_value c = habits_value c'"
  ultimately show ?thesis by (simp add: habits_value_def inj_eq)
qed

lemma save_load_any_codec:
  assumes "parse (stringify v) = Some v" and "stringify v \<noteq> []"
  shows "loadHabitsFromStorage parse (fst (saveHabitsToStorage stringify True v stored)) habits = v"
  using assms by (simp add: loadHabitsFromStorage_def saveHabitsToStorage_def)

text \<open>
  C5. For every collection \<open>c\<close>, saving it and loading what was stored gives \<open>c\<close> again,
  whatever was stored before and whatever the array held before the load: the stored text
  is \<^verbatim>\<open>JSON.stringify(habits)\<close>, it is not empty, and the loader assigns what
  \<^verbatim>\<open>JSON.parse\<close> makes of it, which is the array of the same habits in the same order
  (\<open>habits_value\<close> is injective). For the collections the program can hold, ids being
  clock readings and streaks counts of clicks, the numbers are far below \<open>2^53\<close>, where
  the platform writes an integer with all its digits, as the model does.
\<close>

theorem save_load_roundtrip:
  "loadHabitsFromStorage JSON_parse
     (fst (saveHabitsToStorage JSON_stringify True (habits_value c) stored)) habits
   = habits_value c"
proof -
  have "JSON_stringify (habits_value c) \<noteq> []"
    by (simp add: habits_value_def)
  with habits_text_roundtrip [of c] show ?thesis
    by (rule save_load_any_codec)
qed

text \<open>
  The text stored for the sample habit, as \<^verbatim>\<open>JSON.stringify\<close> writes it.
\<close>

lemma water_text:
  "JSON_stringify (habits_value [h_water]) =
   js (''[{'' @ [CHR 0x22] @ ''id'' @ [CHR 0x22] @ '':1700000000000,'' @
       [CHR 0x22] @ ''name'' @ [CHR 0x22] @ '':'' @ [CHR 0x22] @ ''Drink Water'' @ [CHR 0x22] @ '','' @
       [CHR 0x22] @ ''category'' @ [CHR 0x22] @ '':'' @ [CHR 0x22] @ ''health'' @ [CHR 0x22] @ '','' @
       [CHR 0x22] @ ''completed'' @ [CHR 0x22] @ '':false,'' @
       [CHR 0x22] @ ''createdAt'' @ [CHR 0x22] @ '':'' @ [CHR 0x22] @ ''2023-11-14T22:13:20.000Z'' @ [CHR 0x22] @ '','' @
       [CHR 0x22] @ ''completedAt'' @ [CHR 0x22] @ '':null,'' @
       [CHR 0x22] @ ''streak'' @ [CHR 0x22] @ '':0}]'')"
  by code_simp

text \<open>
  C6. If decoding the stored text fails, \<^verbatim>\<open>init\<close> leaves the empty array in \<^verbatim>\<open>habits\<close>;
  for a non-empty text the loader does so whatever \<^verbatim>\<open>habits\<close> held before. If nothing
  is stored, \<^verbatim>\<open>init\<close> leaves the empty array as well. The loader has no failing outcome:
  the \<^verbatim>\<open>try\<close> block encloses the only call that can throw.
\<close>

theorem load_fails_soft:
  "(parse s = None \<longrightarrow>
      init parse (Some s) = JArr [] \<and>
      (s \<noteq> [] \<longrightarrow> loadHabitsFromStorage parse (Some s) habits = JArr [])) \<and>
   init parse None = JArr []"
  by (simp add: init_def loadHabitsFromStorage_def)

lemma oops_is_malformed: "JSON_parse (js ''{oops'') = None"
  by code_simp

theorem load_fails_soft_witness:
  "JSON_parse (js ''{oops'') = None \<and>
   init JSON_parse (Some (js ''{oops'')) = JArr [] \<and>
   js ''{oops'' \<noteq> [] \<and>
   loadHabitsFromStorage JSON_parse (Some (js ''{oops'')) (habits_value [h_water]) = JArr [] \<and>
   init JSON_parse None = JArr []"
proof -
  have ne: "js ''{oops'' \<noteq> []" by (simp add: js_def)
  from load_fails_soft [of JSON_parse "js ''{oops''" "habits_value [h_water]"]
    oops_is_malformed ne
  show ?thesis by simp
qed

lemma five_decodes: "JSON_parse (js ''5'') = Some (JNum 5)"
  by code_simp

lemma braces_decode: "JSON_parse (js ''{}'') = Some (JObj [])"
  by code_simp

text \<open>
  A stored array whose habit is completed without a completion time is loaded as it is:
  the state after \<^verbatim>\<open>init\<close> violates the invariant that the handlers maintain.
\<close>

lemma load_can_break_the_invariant:
  "init JSON_parse
     (Some (JSON_stringify (habits_value [h_water\<lparr>completed := True\<rparr>])))
   = habits_value [h_water\<lparr>completed := True\<rparr>]
   \<and> \<not> completion_inv [h_water\<lparr>completed := True\<rparr>]"
proof -
  have "JSON_parse (JSON_stringify (habits_value [h_water\<lparr>completed := True\<rparr>]))
        = Some (habits_value [h_water\<lparr>completed := True\<rparr>])"
    by (rule habits_text_roundtrip)
  moreover have "JSON_stringify (habits_value [h_water\<lparr>completed := True\<rparr>]) \<noteq> []"
    by (simp add: habits_value_def)
  moreover have "\<not> completion_inv [h_water\<lparr>completed := True\<rparr>]"
    by (simp add: completion_inv_def h_water_def)
  ultimately show ?thesis
    by (simp add: init_def loadHabitsFromStorage_def)
qed

text \<open>
  C10. The loader keeps whatever the decoder returns for a non-empty text. The texts
  \<^verbatim>\<open>5\<close> and \<^verbatim>\<open>{}\<close> are valid JSON, and after \<^verbatim>\<open>init\<close> the variable \<^verbatim>\<open>habits\<close> holds the
  number 5, respectively the empty object, neither of which is an array of habits; and
  the stored array of one habit that is completed without a completion time is loaded
  as it is, against the invariant of the handlers.
\<close>

theorem load_no_schema_validation:
  "(parse s = Some v \<and> s \<noteq> [] \<longrightarrow> loadHabitsFromStorage parse (Some s) habits = v) \<and>
   init JSON_parse (Some (js ''5'')) = JNum 5 \<and>
   init JSON_parse (Some (js ''{}'')) = JObj [] \<and>
   JNum 5 \<noteq> habits_value hs \<and> JObj [] \<noteq> habits_value hs \<and>
   init JSON_parse (Some (JSON_stringify (habits_value [h_water\<lparr>completed := True\<rparr>])))
     = habits_value [h_water\<lparr>completed := True\<rparr>] \<and>
   \<not> completion_inv [h_water\<lparr>completed := True\<rparr>]"
proof -
  have ne: "js ''5'' \<noteq> []" "js ''{}'' \<noteq> []"
    by (simp_all add: js_def)
  have "(parse s = Some v \<and> s \<noteq> [] \<longrightarrow> loadHabitsFromStorage parse (Some s) habits = v) \<and>
   init JSON_parse (Some (js ''5'')) = JNum 5 \<and>
   init JSON_parse (Some (js ''{}'')) = JObj [] \<and>
   JNum 5 \<noteq> habits_value hs \<and> JObj [] \<noteq> habits_value hs"
    by (simp add: init_def loadHabitsFromStorage_def five_decodes braces_decode habits_value_def ne)
  with load_can_break_the_invariant show ?thesis by simp
qed

theorem load_no_schema_validation_witness:
  "JSON_parse (js ''5'') = Some (JNum 5) \<and> js ''5'' \<noteq> [] \<and>
   loadHabitsFromStorage JSON_parse (Some (js ''5'')) (JArr []) = JNum 5 \<and>
   JNum 5 \<noteq> JArr []"
proof -
  have ne: "js ''5'' \<noteq> []" by (simp add: js_def)
  from load_no_schema_validation [of JSON_parse "js ''5''" "JNum 5" "JArr []" "[]"] five_decodes ne
  show ?thesis by simp
qed

end
